theory Spec2Isabelle
  imports Main "HOL-Library.Monad_Syntax" "HOL-Library.Multiset"
begin

section \<open>Memory model\<close>

text \<open>
  The list of \<^verbatim>\<open>list.c\<close> is a chain of heap nodes. A pointer is an address, the
  address \<open>0\<close> is the C \<open>NULL\<close>. The node heap maps the addresses of the live
  \<open>Node\<close> blocks to their contents, the list heap does the same for the \<open>List\<close>
  structures. Reading or writing through \<open>NULL\<close> or through an address that holds no
  live block is a fault: every operation returns an \<open>option\<close>, and \<open>None\<close> is that
  fault. Payloads are the \<open>void *\<close> values themselves (addresses); the container never
  looks behind them.
\<close>

type_synonym ptr = nat

abbreviation NULL :: ptr where
  "NULL \<equiv> 0"

record Node =
  data :: ptr
  "next" :: ptr
  prev :: ptr

record dlist =
  size_l :: nat
  head :: ptr
  tail :: ptr

record ListIter =
  it_index :: nat
  it_list :: ptr
  it_last :: ptr
  it_next :: ptr

type_synonym heap = "ptr \<rightharpoonup> Node"

text \<open>
  The allocator is the field \<open>pool\<close>: the answers the coming \<open>calloc\<close> calls will
  give, in order. An entry \<open>NULL\<close> is a failed allocation, and so is every call made
  once the pool is exhausted.
\<close>

record state =
  nodes :: heap
  lists :: "ptr \<rightharpoonup> dlist"
  pool :: "ptr list"

text \<open>\<open>size_t\<close> is a 64-bit unsigned integer; its arithmetic wraps around.\<close>

definition SIZE_MAX :: nat where
  "SIZE_MAX = 2 ^ 64 - 1"

definition size_inc :: "nat \<Rightarrow> nat" where
  "size_inc n = (if n = SIZE_MAX then 0 else n + 1)"

definition size_dec :: "nat \<Rightarrow> nat" where
  "size_dec n = (if n = 0 then SIZE_MAX else n - 1)"

definition size_add :: "nat \<Rightarrow> nat \<Rightarrow> nat" where
  "size_add a b = (a + b) mod (SIZE_MAX + 1)"

subsection \<open>Field access\<close>

definition deref :: "heap \<Rightarrow> ptr \<Rightarrow> Node option" where
  "deref h p = (if p = NULL then None else h p)"

definition get_data :: "heap \<Rightarrow> ptr \<Rightarrow> ptr option" where
  "get_data h p = map_option data (deref h p)"

definition get_next :: "heap \<Rightarrow> ptr \<Rightarrow> ptr option" where
  "get_next h p = map_option next (deref h p)"

definition get_prev :: "heap \<Rightarrow> ptr \<Rightarrow> ptr option" where
  "get_prev h p = map_option prev (deref h p)"

definition set_data :: "heap \<Rightarrow> ptr \<Rightarrow> ptr \<Rightarrow> heap option" where
  "set_data h p v = map_option (\<lambda>n. h(p \<mapsto> n\<lparr>data := v\<rparr>)) (deref h p)"

definition set_next :: "heap \<Rightarrow> ptr \<Rightarrow> ptr \<Rightarrow> heap option" where
  "set_next h p v = map_option (\<lambda>n. h(p \<mapsto> n\<lparr>next := v\<rparr>)) (deref h p)"

definition set_prev :: "heap \<Rightarrow> ptr \<Rightarrow> ptr \<Rightarrow> heap option" where
  "set_prev h p v = map_option (\<lambda>n. h(p \<mapsto> n\<lparr>prev := v\<rparr>)) (deref h p)"

definition get_list :: "state \<Rightarrow> ptr \<Rightarrow> dlist option" where
  "get_list s l = (if l = NULL then None else lists s l)"

definition put_list :: "state \<Rightarrow> ptr \<Rightarrow> dlist \<Rightarrow> state" where
  "put_list s l L = s\<lparr>lists := (lists s)(l \<mapsto> L)\<rparr>"

definition set_head :: "state \<Rightarrow> ptr \<Rightarrow> ptr \<Rightarrow> state option" where
  "set_head s l v = map_option (\<lambda>L. put_list s l (L\<lparr>head := v\<rparr>)) (get_list s l)"

definition set_tail :: "state \<Rightarrow> ptr \<Rightarrow> ptr \<Rightarrow> state option" where
  "set_tail s l v = map_option (\<lambda>L. put_list s l (L\<lparr>tail := v\<rparr>)) (get_list s l)"

definition set_size :: "state \<Rightarrow> ptr \<Rightarrow> nat \<Rightarrow> state option" where
  "set_size s l v = map_option (\<lambda>L. put_list s l (L\<lparr>size_l := v\<rparr>)) (get_list s l)"

text \<open>Node-heap operations lifted to the state.\<close>

definition on_nodes :: "state \<Rightarrow> (heap \<Rightarrow> heap option) \<Rightarrow> state option" where
  "on_nodes s f = map_option (\<lambda>h. s\<lparr>nodes := h\<rparr>) (f (nodes s))"

subsection \<open>Allocation\<close>

text \<open>\<open>calloc(1, sizeof(Node))\<close>: a zeroed node at the address the allocator hands out.\<close>

definition calloc_node :: "state \<Rightarrow> ptr \<times> state" where
  "calloc_node s =
     (case pool s of
        [] \<Rightarrow> (NULL, s)
      | p # ps \<Rightarrow>
          if p = NULL then (NULL, s\<lparr>pool := ps\<rparr>)
          else (p, s\<lparr>nodes := (nodes s)(p \<mapsto> \<lparr>data = NULL, next = NULL, prev = NULL\<rparr>),
                       pool := ps\<rparr>))"

definition free_node :: "state \<Rightarrow> ptr \<Rightarrow> state" where
  "free_node s p = s\<lparr>nodes := (nodes s)(p := None)\<rparr>"

section \<open>Link engine\<close>

text \<open>The loops \<open>for (i = 0; i < n; i++) node = node->next;\<close> and its mirror image.\<close>

primrec advance_next :: "heap \<Rightarrow> ptr \<Rightarrow> nat \<Rightarrow> ptr option" where
  "advance_next h node 0 = Some node"
| "advance_next h node (Suc n) = do { m \<leftarrow> get_next h node; advance_next h m n }"

primrec advance_prev :: "heap \<Rightarrow> ptr \<Rightarrow> nat \<Rightarrow> ptr option" where
  "advance_prev h node 0 = Some node"
| "advance_prev h node (Suc n) = do { m \<leftarrow> get_prev h node; advance_prev h m n }"

definition link_behind :: "heap \<Rightarrow> ptr \<Rightarrow> ptr \<Rightarrow> heap option" where
  "link_behind h base ins = do {
     inx \<leftarrow> get_next h ins;
     h \<leftarrow> (if inx \<noteq> NULL then do { ip \<leftarrow> get_prev h ins; set_prev h inx ip }
           else Some h);
     ip \<leftarrow> get_prev h ins;
     h \<leftarrow> (if ip \<noteq> NULL then do { inx \<leftarrow> get_next h ins; set_next h ip inx }
           else Some h);
     bp \<leftarrow> get_prev h base;
     if bp = NULL then do {
       h \<leftarrow> set_prev h ins NULL;
       h \<leftarrow> set_next h ins base;
       set_prev h base ins
     } else do {
       h \<leftarrow> set_prev h ins bp;
       ip \<leftarrow> get_prev h ins;
       h \<leftarrow> set_next h ip ins;
       h \<leftarrow> set_next h ins base;
       set_prev h base ins
     }
   }"

definition link_after :: "heap \<Rightarrow> ptr \<Rightarrow> ptr \<Rightarrow> heap option" where
  "link_after h base ins = do {
     inx \<leftarrow> get_next h ins;
     h \<leftarrow> (if inx \<noteq> NULL then do { ip \<leftarrow> get_prev h ins; set_prev h inx ip }
           else Some h);
     ip \<leftarrow> get_prev h ins;
     h \<leftarrow> (if ip \<noteq> NULL then do { inx \<leftarrow> get_next h ins; set_next h ip inx }
           else Some h);
     bn \<leftarrow> get_next h base;
     if bn = NULL then do {
       h \<leftarrow> set_prev h ins base;
       h \<leftarrow> set_next h base ins;
       set_next h ins NULL
     } else do {
       h \<leftarrow> set_next h ins bn;
       inx \<leftarrow> get_next h ins;
       h \<leftarrow> set_prev h inx ins;
       h \<leftarrow> set_prev h ins base;
       set_next h base ins
     }
   }"

definition swap_adjacent :: "heap \<Rightarrow> ptr \<Rightarrow> ptr \<Rightarrow> heap option" where
  "swap_adjacent h n1 n2 = do {
     n1n \<leftarrow> get_next h n1;
     if n1n = n2 then do {
       n2n \<leftarrow> get_next h n2;
       h \<leftarrow> (if n2n \<noteq> NULL then set_prev h n2n n1 else Some h);
       n2n \<leftarrow> get_next h n2;
       h \<leftarrow> set_next h n1 n2n;
       n1p \<leftarrow> get_prev h n1;
       h \<leftarrow> (if n1p \<noteq> NULL then set_next h n1p n2 else Some h);
       n1p \<leftarrow> get_prev h n1;
       h \<leftarrow> set_prev h n2 n1p;
       h \<leftarrow> set_prev h n1 n2;
       set_next h n2 n1
     } else do {
       n2n \<leftarrow> get_next h n2;
       if n2n = n1 then do {
         n1n \<leftarrow> get_next h n1;
         h \<leftarrow> (if n1n \<noteq> NULL then set_prev h n1n n2 else Some h);
         n1n \<leftarrow> get_next h n1;
         h \<leftarrow> set_next h n2 n1n;
         n2p \<leftarrow> get_prev h n2;
         h \<leftarrow> (if n2p \<noteq> NULL then set_next h n2p n1 else Some h);
         n2p \<leftarrow> get_prev h n2;
         h \<leftarrow> set_prev h n1 n2p;
         h \<leftarrow> set_prev h n2 n1;
         set_next h n1 n2
       } else Some h
     }
   }"

definition swap :: "heap \<Rightarrow> ptr \<Rightarrow> ptr \<Rightarrow> heap option" where
  "swap h n1 n2 = do {
     n1n \<leftarrow> get_next h n1;
     adjacent \<leftarrow> (if n1n = n2 then Some True
                 else do { n2n \<leftarrow> get_next h n2; Some (n2n = n1) });
     if adjacent then swap_adjacent h n1 n2
     else do {
       n1_left \<leftarrow> get_prev h n1;
       n1_right \<leftarrow> get_next h n1;
       n2_left \<leftarrow> get_prev h n2;
       n2_right \<leftarrow> get_next h n2;
       h \<leftarrow> (if n1_left \<noteq> NULL then set_next h n1_left n2 else Some h);
       h \<leftarrow> set_prev h n2 n1_left;
       h \<leftarrow> (if n1_right \<noteq> NULL then set_prev h n1_right n2 else Some h);
       h \<leftarrow> set_next h n2 n1_right;
       h \<leftarrow> (if n2_left \<noteq> NULL then set_next h n2_left n1 else Some h);
       h \<leftarrow> set_prev h n1 n2_left;
       h \<leftarrow> (if n2_right \<noteq> NULL then set_prev h n2_right n1 else Some h);
       set_next h n1 n2_right
     }
   }"

section \<open>List operations\<close>

definition get_node_at :: "state \<Rightarrow> ptr \<Rightarrow> nat \<Rightarrow> ptr option" where
  "get_node_at s list index =
     (if list = NULL then Some NULL
      else do {
        L \<leftarrow> get_list s list;
        if index \<ge> size_l L then Some NULL
        else if index < size_l L div 2 then advance_next (nodes s) (head L) index
        else advance_prev (nodes s) (tail L) (size_l L - 1 - index)
      })"

definition list_get :: "state \<Rightarrow> ptr \<Rightarrow> nat \<Rightarrow> ptr option" where
  "list_get s list index = do {
     node \<leftarrow> get_node_at s list index;
     if node \<noteq> NULL then get_data (nodes s) node else Some NULL
   }"

definition list_add_at :: "state \<Rightarrow> ptr \<Rightarrow> ptr \<Rightarrow> nat \<Rightarrow> (bool \<times> state) option" where
  "list_add_at s list element index = do {
     node \<leftarrow> get_node_at s list index;
     let (ins, s) = calloc_node s;
     if node = NULL \<or> ins = NULL then Some (False, s)
     else do {
       s \<leftarrow> on_nodes s (\<lambda>h. set_data h ins element);
       s \<leftarrow> on_nodes s (\<lambda>h. link_behind h node ins);
       s \<leftarrow> (if index = 0 then set_head s list ins else Some s);
       L \<leftarrow> get_list s list;
       s \<leftarrow> set_size s list (size_inc (size_l L));
       Some (True, s)
     }
   }"

text \<open>The clean-up loop \<open>while (head) { tmp = head->next; free(head); head = tmp; }\<close>.\<close>

partial_function (option) free_chain :: "state \<Rightarrow> ptr \<Rightarrow> state option" where
  "free_chain s chead = (if chead = NULL then Some s
     else do { tmp \<leftarrow> get_next (nodes s) chead; free_chain (free_node s chead) tmp })"

text \<open>
  The copying loop of \<open>list_add_all_at\<close>, with the number of iterations still to run.
  The result is \<open>None\<close> on a fault, \<open>Some (False, ...)\<close> when an allocation failed and
  the partial chain was released, and \<open>Some (True, s, head, tail)\<close> otherwise.
\<close>

primrec copy_chain :: "nat \<Rightarrow> state \<Rightarrow> ptr \<Rightarrow> ptr \<Rightarrow> ptr \<Rightarrow> (bool \<times> state \<times> ptr \<times> ptr) option" where
  "copy_chain 0 s chead ctail src = Some (True, s, chead, ctail)"
| "copy_chain (Suc n) s chead ctail src =
     (let (new, s) = calloc_node s in
      if new = NULL then do { s \<leftarrow> free_chain s chead; Some (False, s, NULL, NULL) }
      else do {
        d \<leftarrow> get_data (nodes s) src;
        s \<leftarrow> on_nodes s (\<lambda>h. set_data h new d);
        (s, chead, ctail) \<leftarrow> (if chead = NULL then Some (s, new, new)
            else do {
              s \<leftarrow> on_nodes s (\<lambda>h. set_next h ctail new);
              s \<leftarrow> on_nodes s (\<lambda>h. set_prev h new ctail);
              Some (s, chead, new) });
        src \<leftarrow> get_next (nodes s) src;
        copy_chain n s chead ctail src
      })"

definition list_add_all_at :: "state \<Rightarrow> ptr \<Rightarrow> ptr \<Rightarrow> nat \<Rightarrow> (bool \<times> state) option" where
  "list_add_all_at s list1 list2 index = do {
     L2 \<leftarrow> get_list s list2;
     if size_l L2 = 0 then Some (False, s)
     else do {
       L1 \<leftarrow> get_list s list1;
       if index \<ge> size_l L1 then Some (False, s)
       else do {
         (ok, s, chead, ctail) \<leftarrow> copy_chain (size_l L2) s NULL NULL (head L2);
         if \<not> ok then Some (False, s)
         else do {
           L1 \<leftarrow> get_list s list1;
           end_n \<leftarrow> (if index < size_l L1 then get_node_at s list1 index else Some NULL);
           base \<leftarrow> (if index > 0 then get_prev (nodes s) end_n else Some NULL);
           s \<leftarrow> (if end_n = NULL then do {
                   L1 \<leftarrow> get_list s list1;
                   s \<leftarrow> on_nodes s (\<lambda>h. set_next h (tail L1) chead);
                   L1 \<leftarrow> get_list s list1;
                   s \<leftarrow> on_nodes s (\<lambda>h. set_prev h chead (tail L1));
                   set_tail s list1 ctail }
                 else if base = NULL then do {
                   L1 \<leftarrow> get_list s list1;
                   s \<leftarrow> on_nodes s (\<lambda>h. set_prev h (head L1) ctail);
                   L1 \<leftarrow> get_list s list1;
                   s \<leftarrow> on_nodes s (\<lambda>h. set_next h ctail (head L1));
                   set_head s list1 chead }
                 else do {
                   s \<leftarrow> on_nodes s (\<lambda>h. set_prev h chead base);
                   s \<leftarrow> on_nodes s (\<lambda>h. set_next h base chead);
                   s \<leftarrow> on_nodes s (\<lambda>h. set_next h ctail end_n);
                   on_nodes s (\<lambda>h. set_prev h end_n ctail) });
           L1 \<leftarrow> get_list s list1;
           L2 \<leftarrow> get_list s list2;
           s \<leftarrow> set_size s list1 (size_add (size_l L1) (size_l L2));
           Some (True, s)
         }
       }
     }
   }"

definition list_add_all :: "state \<Rightarrow> ptr \<Rightarrow> ptr \<Rightarrow> (bool \<times> state) option" where
  "list_add_all s list1 list2 = do {
     L1 \<leftarrow> get_list s list1;
     list_add_all_at s list1 list2 (size_l L1)
   }"

subsection \<open>Splicing\<close>

definition splice_between :: "state \<Rightarrow> ptr \<Rightarrow> ptr \<Rightarrow> ptr \<Rightarrow> ptr \<Rightarrow> (bool \<times> state) option" where
  "splice_between s l1 l2 left right = do {
     L2 \<leftarrow> get_list s l2;
     if size_l L2 = 0 then Some (True, s)
     else do {
       s \<leftarrow> (if left \<noteq> NULL then do { L2 \<leftarrow> get_list s l2; on_nodes s (\<lambda>h. set_next h left (head L2)) }
             else do { L2 \<leftarrow> get_list s l2; set_head s l1 (head L2) });
       s \<leftarrow> (if right \<noteq> NULL then do { L2 \<leftarrow> get_list s l2; on_nodes s (\<lambda>h. set_prev h right (tail L2)) }
             else do { L2 \<leftarrow> get_list s l2; set_tail s l1 (tail L2) });
       L1 \<leftarrow> get_list s l1;
       L2 \<leftarrow> get_list s l2;
       s \<leftarrow> set_size s l1 (size_add (size_l L1) (size_l L2));
       s \<leftarrow> set_head s l2 NULL;
       s \<leftarrow> set_tail s l2 NULL;
       s \<leftarrow> set_size s l2 0;
       Some (True, s)
     }
   }"

definition list_splice :: "state \<Rightarrow> ptr \<Rightarrow> ptr \<Rightarrow> (bool \<times> state) option" where
  "list_splice s list1 list2 = do {
     L1 \<leftarrow> get_list s list1;
     right \<leftarrow> get_next (nodes s) (tail L1);
     splice_between s list1 list2 (tail L1) right
   }"

definition list_splice_before :: "state \<Rightarrow> ptr \<Rightarrow> ptr \<Rightarrow> nat \<Rightarrow> (bool \<times> state) option" where
  "list_splice_before s list1 list2 index = do {
     new_tail \<leftarrow> get_node_at s list1 index;
     if new_tail = NULL then Some (False, s)
     else do {
       new_head \<leftarrow> get_prev (nodes s) new_tail;
       splice_between s list1 list2 new_head new_tail
     }
   }"

definition list_splice_after :: "state \<Rightarrow> ptr \<Rightarrow> ptr \<Rightarrow> nat \<Rightarrow> (bool \<times> state) option" where
  "list_splice_after s list1 list2 index = do {
     new_head \<leftarrow> get_node_at s list1 index;
     if new_head = NULL then Some (False, s)
     else do {
       new_tail \<leftarrow> get_next (nodes s) new_head;
       splice_between s list1 list2 new_head new_tail
     }
   }"

subsection \<open>Removal\<close>

definition unlink :: "state \<Rightarrow> ptr \<Rightarrow> ptr \<Rightarrow> (ptr \<times> state) option" where
  "unlink s list node = do {
     d \<leftarrow> get_data (nodes s) node;
     np \<leftarrow> get_prev (nodes s) node;
     s \<leftarrow> (if np \<noteq> NULL then do {
             nn \<leftarrow> get_next (nodes s) node;
             on_nodes s (\<lambda>h. set_next h np nn) }
           else Some s);
     np \<leftarrow> get_prev (nodes s) node;
     s \<leftarrow> (if np = NULL then do {
             nn \<leftarrow> get_next (nodes s) node;
             set_head s list nn }
           else Some s);
     nn \<leftarrow> get_next (nodes s) node;
     s \<leftarrow> (if nn = NULL then do {
             np \<leftarrow> get_prev (nodes s) node;
             set_tail s list np }
           else Some s);
     nn \<leftarrow> get_next (nodes s) node;
     s \<leftarrow> (if nn \<noteq> NULL then do {
             np \<leftarrow> get_prev (nodes s) node;
             on_nodes s (\<lambda>h. set_prev h nn np) }
           else Some s);
     let s = free_node s node;
     L \<leftarrow> get_list s list;
     s \<leftarrow> set_size s list (size_dec (size_l L));
     Some (d, s)
   }"

subsection \<open>Reversal\<close>

text \<open>The loop of \<open>list_reverse\<close>, with the number of iterations still to run.\<close>

primrec reverse_loop :: "nat \<Rightarrow> heap \<Rightarrow> ptr \<Rightarrow> ptr \<Rightarrow> heap option" where
  "reverse_loop 0 h left right = Some h"
| "reverse_loop (Suc n) h left right = do {
     tmpl \<leftarrow> get_next h left;
     tmpr \<leftarrow> get_prev h right;
     h \<leftarrow> swap h left right;
     reverse_loop n h tmpl tmpr
   }"

definition list_reverse :: "state \<Rightarrow> ptr \<Rightarrow> state option" where
  "list_reverse s list = do {
     L \<leftarrow> get_list s list;
     let head_old = head L;
     let tail_old = tail L;
     s \<leftarrow> on_nodes s (\<lambda>h. reverse_loop (size_l L div 2) h (head L) (tail L));
     s \<leftarrow> set_head s list tail_old;
     set_tail s list head_old
   }"

section \<open>Merge sort\<close>

text \<open>
  The loop of \<open>merge\<close>. The comparator is the caller's function on payloads; its
  result is a C \<open>int\<close>. The loop state is the heap, the counters \<open>i\<close>, \<open>l\<close>, \<open>r\<close>,
  the two running pointers and the two output parameters \<open>*left\<close> and \<open>*right\<close>; the
  result is the heap with the final \<open>*left\<close> and \<open>*right\<close>.
\<close>

function merge_loop ::
  "(ptr \<Rightarrow> ptr \<Rightarrow> int) \<Rightarrow> nat \<Rightarrow> nat \<Rightarrow> nat \<Rightarrow> heap \<Rightarrow> nat \<Rightarrow> nat \<Rightarrow> nat \<Rightarrow>
     ptr \<Rightarrow> ptr \<Rightarrow> ptr \<Rightarrow> ptr \<Rightarrow> (heap \<times> ptr \<times> ptr) option" where
  "merge_loop cmp l_size r_size size' h i l r l_part r_part left right =
     (if i < size' then do {
        ld \<leftarrow> get_data h l_part;
        rd \<leftarrow> get_data h r_part;
        let c = cmp ld rd;
        if c = - 1 \<or> c = 0 then
          (if i = 0 \<and> size' = 2 then Some (h, left, right)
           else if l = l_size then do {
             r_part \<leftarrow> advance_next h r_part (size_dec r_size - r);
             Some (h, left, r_part)
           } else do {
             l_part \<leftarrow> get_next h l_part;
             merge_loop cmp l_size r_size size' h (i + 1) (l + 1) r l_part r_part left right
           })
        else do {
          tmp \<leftarrow> get_next h r_part;
          h \<leftarrow> link_behind h l_part r_part;
          if i = 0 \<and> size' = 2 then Some (h, r_part, l_part)
          else if r + 1 = r_size then do {
            l_part \<leftarrow> advance_next h l_part (size_dec l_size - l);
            Some (h, left, l_part)
          } else
            merge_loop cmp l_size r_size size' h (i + 1) l (r + 1) l_part tmp
              (if i = 0 then r_part else left) right
        }
      } else Some (h, left, right))"
  by pat_completeness auto
termination
  by (relation "measure (\<lambda>(cmp, l_size, r_size, size', h, i, l, r, l_part, r_part, left, right). size' - i)")
     auto

definition merge ::
  "(ptr \<Rightarrow> ptr \<Rightarrow> int) \<Rightarrow> heap \<Rightarrow> ptr \<Rightarrow> ptr \<Rightarrow> nat \<Rightarrow> nat \<Rightarrow> (heap \<times> ptr \<times> ptr) option" where
  "merge cmp h left right l_size r_size =
     merge_loop cmp l_size r_size (size_add r_size l_size) h 0 0 0 left right left right"

function split :: "(ptr \<Rightarrow> ptr \<Rightarrow> int) \<Rightarrow> state \<Rightarrow> ptr \<Rightarrow> ptr \<Rightarrow> nat \<Rightarrow> (ptr \<times> state) option" where
  "split cmp s list b size' =
     (if size' < 2 then Some (b, s)
      else do {
        let l_size = size' div 2;
        let r_size = size' div 2 + size' mod 2;
        center \<leftarrow> advance_next (nodes s) b l_size;
        (l_head, s) \<leftarrow> split cmp s list b l_size;
        (r_head, s) \<leftarrow> split cmp s list center r_size;
        (h, l_head, r_head) \<leftarrow> merge cmp (nodes s) l_head r_head l_size r_size;
        let s = s\<lparr>nodes := h\<rparr>;
        s \<leftarrow> set_head s list l_head;
        s \<leftarrow> set_tail s list r_head;
        Some (l_head, s)
      })"
  by pat_completeness auto
termination
  apply (relation "measure (\<lambda>(cmp, s, list, b, size'). size')")
    apply simp_all
  apply presburger
  done

definition list_sort :: "state \<Rightarrow> ptr \<Rightarrow> (ptr \<Rightarrow> ptr \<Rightarrow> int) \<Rightarrow> state option" where
  "list_sort s list cmp = do {
     L \<leftarrow> get_list s list;
     (b, s) \<leftarrow> split cmp s list (head L) (size_l L);
     Some s
   }"

section \<open>Cursors\<close>

text \<open>
  The forward and the backward cursor have the same fields; a cursor is passed and
  returned by value here, its \<open>it_list\<close> is the address of the list it walks.
\<close>

definition list_iter_new :: "state \<Rightarrow> ptr \<Rightarrow> ListIter option" where
  "list_iter_new s list = do {
     L \<leftarrow> get_list s list;
     Some \<lparr>it_index = 0, it_list = list, it_last = NULL, it_next = head L\<rparr>
   }"

definition list_iter_next :: "state \<Rightarrow> ListIter \<Rightarrow> (ptr \<times> ListIter) option" where
  "list_iter_next s iter = do {
     d \<leftarrow> get_data (nodes s) (it_next iter);
     let iter = iter\<lparr>it_last := it_next iter\<rparr>;
     nn \<leftarrow> get_next (nodes s) (it_next iter);
     let iter = iter\<lparr>it_next := nn\<rparr>;
     Some (d, iter\<lparr>it_index := size_inc (it_index iter)\<rparr>)
   }"

definition list_iter_add :: "state \<Rightarrow> ListIter \<Rightarrow> ptr \<Rightarrow> (bool \<times> ListIter \<times> state) option" where
  "list_iter_add s iter element = do {
     let (new_node, s) = calloc_node s;
     s \<leftarrow> on_nodes s (\<lambda>h. set_data h new_node element);
     s \<leftarrow> on_nodes s (\<lambda>h. link_behind h (it_next iter) new_node);
     L \<leftarrow> get_list s (it_list iter);
     s \<leftarrow> set_size s (it_list iter) (size_inc (size_l L));
     let iter = iter\<lparr>it_index := size_inc (it_index iter)\<rparr>;
     let iter = iter\<lparr>it_last := new_node\<rparr>;
     Some (True, iter, s)
   }"

definition list_iter_remove :: "state \<Rightarrow> ListIter \<Rightarrow> (ptr \<times> ListIter \<times> state) option" where
  "list_iter_remove s iter =
     (if it_last iter = NULL then Some (NULL, iter, s)
      else do {
        (e, s) \<leftarrow> unlink s (it_list iter) (it_last iter);
        Some (e, iter\<lparr>it_last := NULL\<rparr>, s)
      })"

definition list_diter_new :: "state \<Rightarrow> ptr \<Rightarrow> ListIter option" where
  "list_diter_new s list = do {
     L \<leftarrow> get_list s list;
     Some \<lparr>it_index = size_dec (size_l L), it_list = list, it_last = NULL, it_next = tail L\<rparr>
   }"

definition list_diter_next :: "state \<Rightarrow> ListIter \<Rightarrow> (ptr \<times> ListIter) option" where
  "list_diter_next s iter = do {
     d \<leftarrow> get_data (nodes s) (it_next iter);
     let iter = iter\<lparr>it_last := it_next iter\<rparr>;
     np \<leftarrow> get_prev (nodes s) (it_next iter);
     let iter = iter\<lparr>it_next := np\<rparr>;
     Some (d, iter\<lparr>it_index := size_inc (it_index iter)\<rparr>)
   }"

definition list_diter_add :: "state \<Rightarrow> ListIter \<Rightarrow> ptr \<Rightarrow> (bool \<times> ListIter \<times> state) option" where
  "list_diter_add s iter element = do {
     let (new_node, s) = calloc_node s;
     s \<leftarrow> on_nodes s (\<lambda>h. set_data h new_node element);
     s \<leftarrow> on_nodes s (\<lambda>h. link_after h (it_next iter) new_node);
     L \<leftarrow> get_list s (it_list iter);
     s \<leftarrow> set_size s (it_list iter) (size_inc (size_l L));
     let iter = iter\<lparr>it_last := new_node\<rparr>;
     Some (True, iter, s)
   }"

definition list_diter_remove :: "state \<Rightarrow> ListIter \<Rightarrow> (ptr \<times> ListIter \<times> state) option" where
  "list_diter_remove s iter =
     (if it_last iter = NULL then Some (NULL, iter, s)
      else do {
        (e, s) \<leftarrow> unlink s (it_list iter) (it_last iter);
        Some (e, iter\<lparr>it_last := NULL\<rparr>, s)
      })"

section \<open>Abstraction: the chain of a list\<close>

text \<open>
  The three fields of the live nodes, each as a map of its own. A write to one field of a
  node leaves the other two maps alone.
\<close>

definition nxt :: "heap \<Rightarrow> ptr \<rightharpoonup> ptr" where
  "nxt h a = map_option next (h a)"

definition prv :: "heap \<Rightarrow> ptr \<rightharpoonup> ptr" where
  "prv h a = map_option prev (h a)"

definition dat :: "heap \<Rightarrow> ptr \<rightharpoonup> ptr" where
  "dat h a = map_option data (h a)"

text \<open>The heap after a successful write to one field (the heap itself where the node is not live).\<close>

definition upd_next :: "heap \<Rightarrow> ptr \<Rightarrow> ptr \<Rightarrow> heap" where
  "upd_next h p v = (case h p of None \<Rightarrow> h | Some n \<Rightarrow> h(p \<mapsto> n\<lparr>next := v\<rparr>))"

definition upd_prev :: "heap \<Rightarrow> ptr \<Rightarrow> ptr \<Rightarrow> heap" where
  "upd_prev h p v = (case h p of None \<Rightarrow> h | Some n \<Rightarrow> h(p \<mapsto> n\<lparr>prev := v\<rparr>))"

definition upd_data :: "heap \<Rightarrow> ptr \<Rightarrow> ptr \<Rightarrow> heap" where
  "upd_data h p v = (case h p of None \<Rightarrow> h | Some n \<Rightarrow> h(p \<mapsto> n\<lparr>data := v\<rparr>))"

text \<open>
  The first and the last node of a chain, with a default for the empty chain: the \<open>next\<close>
  of a node is the first node of what follows it, or the node after the segment.
\<close>

primrec first_or :: "ptr list \<Rightarrow> ptr \<Rightarrow> ptr" where
  "first_or [] q = q"
| "first_or (a # as) q = a"

primrec last_or :: "ptr list \<Rightarrow> ptr \<Rightarrow> ptr" where
  "last_or [] p = p"
| "last_or (a # as) p = last_or as a"

text \<open>
  \<open>fpath N ns q\<close>: following \<open>next\<close> visits the nodes \<open>ns\<close> in order and then reaches \<open>q\<close>.
  \<open>bpath P p ns\<close>: the \<open>prev\<close> of the first node is \<open>p\<close>, that of every other node is the
  node before it. A chain \<open>ns\<close> is doubly linked (\<open>dll\<close>) when its nodes are distinct and
  live, \<open>A.next = B\<close> and \<open>B.prev = A\<close> for adjacent \<open>A\<close>, \<open>B\<close>, the first node has no
  \<open>prev\<close> and the last no \<open>next\<close>.
\<close>

primrec fpath :: "(ptr \<rightharpoonup> ptr) \<Rightarrow> ptr list \<Rightarrow> ptr \<Rightarrow> bool" where
  "fpath N [] q = True"
| "fpath N (a # as) q = (a \<noteq> NULL \<and> N a = Some (first_or as q) \<and> fpath N as q)"

primrec bpath :: "(ptr \<rightharpoonup> ptr) \<Rightarrow> ptr \<Rightarrow> ptr list \<Rightarrow> bool" where
  "bpath P p [] = True"
| "bpath P p (a # as) = (a \<noteq> NULL \<and> P a = Some p \<and> bpath P a as)"

definition dll :: "heap \<Rightarrow> ptr list \<Rightarrow> bool" where
  "dll h ns = (distinct ns \<and> fpath (nxt h) ns NULL \<and> bpath (prv h) NULL ns)"

text \<open>
  The invariant of a \<open>List\<close>: its nodes form the doubly linked chain \<open>ns\<close>, \<open>head\<close> and
  \<open>tail\<close> are the ends of the chain (both \<open>NULL\<close> for the empty list) and \<open>size\<close> is the
  number of nodes, a value of \<open>size_t\<close>.
\<close>

definition is_list :: "state \<Rightarrow> ptr \<Rightarrow> ptr list \<Rightarrow> bool" where
  "is_list s l ns = (dll (nodes s) ns \<and> length ns \<le> SIZE_MAX \<and>
     get_list s l = Some \<lparr>size_l = length ns, head = first_or ns NULL, tail = last_or ns NULL\<rparr>)"

text \<open>The payloads of a chain, in order.\<close>

definition elems :: "heap \<Rightarrow> ptr list \<Rightarrow> ptr list" where
  "elems h ns = map (\<lambda>a. the (dat h a)) ns"

text \<open>The heap after \<open>calloc\<close> has handed out the block \<open>p\<close> and the payload \<open>e\<close> was stored in it.\<close>

definition fresh_node :: "heap \<Rightarrow> ptr \<Rightarrow> ptr \<Rightarrow> heap" where
  "fresh_node h p e = upd_data (h(p \<mapsto> \<lparr>data = NULL, next = NULL, prev = NULL\<rparr>)) p e"

section \<open>The sort, as a function on sequences\<close>

text \<open>
  The merge-sort engine in the words of its description: a run of fewer than two
  elements is sorted; otherwise the left half takes \<open>length div 2\<close> elements, the right
  half the rest, both are sorted and merged. The merge keeps the left element first
  whenever it is less than or equal to the right one, which makes it stable.
\<close>

fun spec_merge :: "('a \<Rightarrow> 'a \<Rightarrow> bool) \<Rightarrow> 'a list \<Rightarrow> 'a list \<Rightarrow> 'a list" where
  "spec_merge le [] ys = ys"
| "spec_merge le (x # xs) [] = x # xs"
| "spec_merge le (x # xs) (y # ys) =
     (if le x y then x # spec_merge le xs (y # ys) else y # spec_merge le (x # xs) ys)"

function spec_sort :: "('a \<Rightarrow> 'a \<Rightarrow> bool) \<Rightarrow> 'a list \<Rightarrow> 'a list" where
  "spec_sort le xs =
     (if length xs < 2 then xs
      else spec_merge le (spec_sort le (take (length xs div 2) xs))
             (spec_sort le (drop (length xs div 2) xs)))"
  by pat_completeness auto
termination
  by (relation "measure (\<lambda>(le, xs). length xs)") auto

declare spec_sort.simps [simp del]

definition total_preorder :: "('a \<Rightarrow> 'a \<Rightarrow> bool) \<Rightarrow> bool" where
  "total_preorder le = ((\<forall>x y. le x y \<or> le y x) \<and> (\<forall>x y z. le x y \<and> le y z \<longrightarrow> le x z))"

text \<open>
  The order the merge step reads off the comparator, on nodes: the node \<open>a\<close> stays before
  \<open>b\<close> when the comparator answers \<open>-1\<close> or \<open>0\<close> on their payloads (the payload map is
  \<open>D\<close>).
\<close>

definition node_le :: "(ptr \<Rightarrow> ptr \<Rightarrow> int) \<Rightarrow> (ptr \<rightharpoonup> ptr) \<Rightarrow> ptr \<Rightarrow> ptr \<Rightarrow> bool" where
  "node_le cmp D a b = (cmp (the (D a)) (the (D b)) = - 1 \<or> cmp (the (D a)) (the (D b)) = 0)"

text \<open>
  A three-way comparator: it answers \<open>-1\<close> (less), \<open>0\<close> (equal) or \<open>1\<close> (greater), and
  these answers describe one total preorder of the payloads.
\<close>

definition three_way :: "(ptr \<Rightarrow> ptr \<Rightarrow> int) \<Rightarrow> bool" where
  "three_way cmp = ((\<forall>x y. cmp x y = - 1 \<or> cmp x y = 0 \<or> cmp x y = 1) \<and> (\<forall>x. cmp x x = 0)
     \<and> (\<forall>x y. cmp y x = - cmp x y)
     \<and> (\<forall>x y z. cmp x y \<le> 0 \<and> cmp y z \<le> 0 \<longrightarrow> cmp x z \<le> 0))"

text \<open>The ascending numeric comparator on payload values, used in examples.\<close>

definition num_cmp :: "ptr \<Rightarrow> ptr \<Rightarrow> int" where
  "num_cmp a b = (if a < b then - 1 else if a = b then 0 else 1)"

text \<open>
  A comparator that answers exactly \<open>-1\<close> for "less" and exactly \<open>0\<close> for "equal", and any
  other value for "greater": a payload equals itself, \<open>x\<close> is less than \<open>y\<close> exactly when
  the answer on \<open>(y, x)\<close> is neither \<open>-1\<close> nor \<open>0\<close>, and "less or equal" is transitive.
  Every three-way comparator is of this kind; the answer for "greater" is not fixed to
  \<open>1\<close>.
\<close>

definition exact_less_equal :: "(ptr \<Rightarrow> ptr \<Rightarrow> int) \<Rightarrow> bool" where
  "exact_less_equal cmp = ((\<forall>x. cmp x x = 0)
     \<and> (\<forall>x y. (cmp x y = - 1) = (cmp y x \<noteq> - 1 \<and> cmp y x \<noteq> 0))
     \<and> (\<forall>x y z. (cmp x y = - 1 \<or> cmp x y = 0) \<and> (cmp y z = - 1 \<or> cmp y z = 0)
           \<longrightarrow> cmp x z = - 1 \<or> cmp x z = 0))"

text \<open>
  The ascending numeric comparator that answers \<open>7\<close> for "greater", used in examples: its
  range is \<open>{-1, 0, 7}\<close>.
\<close>

definition wide_cmp :: "ptr \<Rightarrow> ptr \<Rightarrow> int" where
  "wide_cmp a b = (if a < b then - 1 else if a = b then 0 else 7)"

section \<open>Observation and example state\<close>

text \<open>
  A state used to run the operations on concrete lists: list \<open>100\<close> holds the payloads
  \<open>10, 20, 30\<close>, list \<open>101\<close> holds \<open>40\<close>, list \<open>104\<close> holds \<open>70, 80\<close>, list
  \<open>105\<close> holds \<open>3, 1, 2\<close>, and the lists \<open>102\<close> and \<open>103\<close> are empty.
\<close>

definition ex_state :: state where
  "ex_state =
     \<lparr>nodes = [11 \<mapsto> \<lparr>data = 10, next = 12, prev = NULL\<rparr>,
               12 \<mapsto> \<lparr>data = 20, next = 13, prev = 11\<rparr>,
               13 \<mapsto> \<lparr>data = 30, next = NULL, prev = 12\<rparr>,
               14 \<mapsto> \<lparr>data = 40, next = NULL, prev = NULL\<rparr>,
               21 \<mapsto> \<lparr>data = 70, next = 22, prev = NULL\<rparr>,
               22 \<mapsto> \<lparr>data = 80, next = NULL, prev = 21\<rparr>,
               31 \<mapsto> \<lparr>data = 3, next = 32, prev = NULL\<rparr>,
               32 \<mapsto> \<lparr>data = 1, next = 33, prev = 31\<rparr>,
               33 \<mapsto> \<lparr>data = 2, next = NULL, prev = 32\<rparr>],
      lists = [100 \<mapsto> \<lparr>size_l = 3, head = 11, tail = 13\<rparr>,
               101 \<mapsto> \<lparr>size_l = 1, head = 14, tail = 14\<rparr>,
               102 \<mapsto> \<lparr>size_l = 0, head = NULL, tail = NULL\<rparr>,
               103 \<mapsto> \<lparr>size_l = 0, head = NULL, tail = NULL\<rparr>,
               104 \<mapsto> \<lparr>size_l = 2, head = 21, tail = 22\<rparr>,
               105 \<mapsto> \<lparr>size_l = 3, head = 31, tail = 33\<rparr>],
      pool = [50, 51]\<rparr>"

text \<open>The payloads met walking \<open>next\<close> from a node, at most \<open>n\<close> nodes.\<close>

primrec walk_elems :: "nat \<Rightarrow> heap \<Rightarrow> ptr \<Rightarrow> ptr list" where
  "walk_elems 0 h p = []"
| "walk_elems (Suc n) h p =
     (if p = NULL then []
      else case h p of None \<Rightarrow> [] | Some nd \<Rightarrow> data nd # walk_elems n h (next nd))"


section \<open>Properties of the link engine\<close>

text \<open>
  The accessors in terms of the three field maps, and what each primitive of the link
  engine does to a doubly linked chain: \<open>link_behind\<close> moves a node of the chain (or a
  fresh node) before another one, \<open>link_after\<close> places a fresh node after one, \<open>swap\<close>
  exchanges two nodes, adjacent or apart. Payloads are never touched.
\<close>

lemma prv_None [simp]: "(prv h p = None) = (nxt h p = None)"
  by (simp add: prv_def nxt_def)

lemma dat_None [simp]: "(dat h p = None) = (nxt h p = None)"
  by (simp add: dat_def nxt_def)

lemma get_next_eq: "get_next h p = (if p = NULL then None else nxt h p)"
  by (simp add: get_next_def deref_def nxt_def)

lemma get_prev_eq: "get_prev h p = (if p = NULL then None else prv h p)"
  by (simp add: get_prev_def deref_def prv_def)

lemma get_data_eq: "get_data h p = (if p = NULL then None else dat h p)"
  by (simp add: get_data_def deref_def dat_def)

lemma set_next_eq: "set_next h p v = (if p = NULL \<or> nxt h p = None then None else Some (upd_next h p v))"
  by (auto simp: set_next_def deref_def nxt_def upd_next_def)

lemma set_prev_eq: "set_prev h p v = (if p = NULL \<or> nxt h p = None then None else Some (upd_prev h p v))"
  by (auto simp: set_prev_def deref_def nxt_def upd_prev_def)

lemma set_data_eq: "set_data h p v = (if p = NULL \<or> nxt h p = None then None else Some (upd_data h p v))"
  by (auto simp: set_data_def deref_def nxt_def upd_data_def)

lemmas access_eq = get_next_eq get_prev_eq get_data_eq set_next_eq set_prev_eq set_data_eq

lemma nxt_upd_next [simp]: "nxt (upd_next h p v) = (if nxt h p = None then nxt h else (nxt h)(p \<mapsto> v))"
  by (auto simp: nxt_def upd_next_def fun_eq_iff split: option.splits)
lemma prv_upd_next [simp]: "prv (upd_next h p v) = prv h"
  by (auto simp: prv_def upd_next_def fun_eq_iff split: option.splits)
lemma dat_upd_next [simp]: "dat (upd_next h p v) = dat h"
  by (auto simp: dat_def upd_next_def fun_eq_iff split: option.splits)
lemma nxt_upd_prev [simp]: "nxt (upd_prev h p v) = nxt h"
  by (auto simp: nxt_def upd_prev_def fun_eq_iff split: option.splits)
lemma prv_upd_prev [simp]: "prv (upd_prev h p v) = (if nxt h p = None then prv h else (prv h)(p \<mapsto> v))"
  by (auto simp: prv_def nxt_def upd_prev_def fun_eq_iff split: option.splits)
lemma dat_upd_prev [simp]: "dat (upd_prev h p v) = dat h"
  by (auto simp: dat_def upd_prev_def fun_eq_iff split: option.splits)
lemma nxt_upd_data [simp]: "nxt (upd_data h p v) = nxt h"
  by (auto simp: nxt_def upd_data_def fun_eq_iff split: option.splits)
lemma prv_upd_data [simp]: "prv (upd_data h p v) = prv h"
  by (auto simp: prv_def upd_data_def fun_eq_iff split: option.splits)
lemma dat_upd_data [simp]: "dat (upd_data h p v) = (if nxt h p = None then dat h else (dat h)(p \<mapsto> v))"
  by (auto simp: dat_def nxt_def upd_data_def fun_eq_iff split: option.splits)

lemma first_or_append [simp]: "first_or (xs @ ys) q = first_or xs (first_or ys q)"
  by (cases xs) auto
lemma last_or_append [simp]: "last_or (xs @ ys) p = last_or ys (last_or xs p)"
  by (induction xs arbitrary: p) auto

lemma fpath_append [simp]: "fpath N (xs @ ys) q = (fpath N xs (first_or ys q) \<and> fpath N ys q)"
  by (induction xs) auto
lemma bpath_append [simp]: "bpath P p (xs @ ys) = (bpath P p xs \<and> bpath P (last_or xs p) ys)"
  by (induction xs arbitrary: p) auto
lemma fpath_upd [simp]: "a \<notin> set ns \<Longrightarrow> fpath (N(a := v)) ns q = fpath N ns q"
  by (induction ns) auto
lemma bpath_upd [simp]: "a \<notin> set ns \<Longrightarrow> bpath (P(a := v)) p ns = bpath P p ns"
  by (induction ns arbitrary: p) auto

lemma link_behind_chain:
  assumes "dll h (A @ base # B @ ins # C)"
  shows "\<exists>h'. link_behind h base ins = Some h' \<and> dll h' (A @ ins # base # B @ C) \<and> dat h' = dat h"
proof (cases A rule: rev_cases)
  case Nil
  show ?thesis
  proof (cases B rule: rev_cases)
    case Nil
    show ?thesis
    proof (cases C)
      case Nil
      with \<open>A = []\<close> \<open>B = []\<close> assms show ?thesis
        by (auto simp: dll_def link_behind_def access_eq)
    next
      case (Cons c C')
      with \<open>A = []\<close> \<open>B = []\<close> assms show ?thesis
        by (auto simp: dll_def link_behind_def access_eq)
    qed
  next
    case (snoc B' b)
    show ?thesis
    proof (cases C)
      case Nil
      with \<open>A = []\<close> snoc assms show ?thesis
        by (auto simp: dll_def link_behind_def access_eq)
    next
      case (Cons c C')
      with \<open>A = []\<close> snoc assms show ?thesis
        by (auto simp: dll_def link_behind_def access_eq)
    qed
  qed
next
  case (snoc A' a)
  show ?thesis
  proof (cases B rule: rev_cases)
    case Nil
    show ?thesis
    proof (cases C)
      case Nil
      with snoc \<open>B = []\<close> assms show ?thesis
        by (auto simp: dll_def link_behind_def access_eq)
    next
      case (Cons c C')
      with snoc \<open>B = []\<close> assms show ?thesis
        by (auto simp: dll_def link_behind_def access_eq)
    qed
  next
    case B: (snoc B' b)
    show ?thesis
    proof (cases C)
      case Nil
      with snoc B assms show ?thesis
        by (auto simp: dll_def link_behind_def access_eq)
    next
      case (Cons c C')
      with snoc B assms show ?thesis
        by (auto simp: dll_def link_behind_def access_eq)
    qed
  qed
qed


lemma link_behind_fresh:
  assumes "dll h (A @ base # C)" and "ins \<noteq> NULL" and "ins \<notin> set (A @ base # C)"
    and "nxt h ins = Some NULL" and "prv h ins = Some NULL"
  shows "\<exists>h'. link_behind h base ins = Some h' \<and> dll h' (A @ ins # base # C) \<and> dat h' = dat h"
proof (cases A rule: rev_cases)
  case Nil
  with assms show ?thesis
    by (auto simp: dll_def link_behind_def access_eq)
next
  case (snoc A' a)
  with assms show ?thesis
    by (auto simp: dll_def link_behind_def access_eq)
qed

lemma link_after_fresh:
  assumes "dll h (A @ base # C)" and "ins \<noteq> NULL" and "ins \<notin> set (A @ base # C)"
    and "nxt h ins = Some NULL" and "prv h ins = Some NULL"
  shows "\<exists>h'. link_after h base ins = Some h' \<and> dll h' (A @ base # ins # C) \<and> dat h' = dat h"
proof (cases C)
  case Nil
  with assms show ?thesis
    by (auto simp: dll_def link_after_def access_eq)
next
  case (Cons c C')
  with assms show ?thesis
    by (auto simp: dll_def link_after_def access_eq)
qed

lemma swap_adjacent_chain:
  assumes "dll h (A @ x # y # C)"
  shows "\<exists>h'. swap h x y = Some h' \<and> dll h' (A @ y # x # C) \<and> dat h' = dat h"
proof (cases A rule: rev_cases)
  case Nil
  show ?thesis
  proof (cases C)
    case Nil
    with \<open>A = []\<close> assms show ?thesis
      by (auto simp: dll_def swap_def swap_adjacent_def access_eq)
  next
    case (Cons c C')
    with \<open>A = []\<close> assms show ?thesis
      by (auto simp: dll_def swap_def swap_adjacent_def access_eq)
  qed
next
  case (snoc A' a)
  show ?thesis
  proof (cases C)
    case Nil
    with snoc assms show ?thesis
      by (auto simp: dll_def swap_def swap_adjacent_def access_eq)
  next
    case (Cons c C')
    with snoc assms show ?thesis
      by (auto simp: dll_def swap_def swap_adjacent_def access_eq)
  qed
qed

lemma swap_apart_chain:
  assumes "dll h (A @ x # b # B @ y # C)"
  shows "\<exists>h'. swap h x y = Some h' \<and> dll h' (A @ y # b # B @ x # C) \<and> dat h' = dat h"
proof (cases A rule: rev_cases)
  case Nil
  show ?thesis
  proof (cases B rule: rev_cases)
    case Nil
    show ?thesis
    proof (cases C)
      case Nil
      with \<open>A = []\<close> \<open>B = []\<close> assms show ?thesis
        by (auto simp: dll_def swap_def access_eq)
    next
      case (Cons c C')
      with \<open>A = []\<close> \<open>B = []\<close> assms show ?thesis
        by (auto simp: dll_def swap_def access_eq)
    qed
  next
    case (snoc B' b')
    show ?thesis
    proof (cases C)
      case Nil
      with \<open>A = []\<close> snoc assms show ?thesis
        by (auto simp: dll_def swap_def access_eq)
    next
      case (Cons c C')
      with \<open>A = []\<close> snoc assms show ?thesis
        by (auto simp: dll_def swap_def access_eq)
    qed
  qed
next
  case (snoc A' a)
  show ?thesis
  proof (cases B rule: rev_cases)
    case Nil
    show ?thesis
    proof (cases C)
      case Nil
      with snoc \<open>B = []\<close> assms show ?thesis
        by (auto simp: dll_def swap_def access_eq)
    next
      case (Cons c C')
      with snoc \<open>B = []\<close> assms show ?thesis
        by (auto simp: dll_def swap_def access_eq)
    qed
  next
    case B: (snoc B' b')
    show ?thesis
    proof (cases C)
      case Nil
      with snoc B assms show ?thesis
        by (auto simp: dll_def swap_def access_eq)
    next
      case (Cons c C')
      with snoc B assms show ?thesis
        by (auto simp: dll_def swap_def access_eq)
    qed
  qed
qed

lemma advance_next_fpath:
  "fpath (nxt h) xs q \<Longrightarrow> advance_next h (first_or xs q) (length xs) = Some q"
  by (induction xs) (auto simp: access_eq)

lemma advance_prev_bpath:
  "bpath (prv h) p xs \<Longrightarrow> advance_prev h (last_or xs p) (length xs) = Some p"
  by (induction xs rule: rev_induct) (auto simp: access_eq)

section \<open>Lists in the state\<close>

text \<open>
  Index resolution (\<open>get_node_at\<close> walks from the nearer end and finds the node at the
  index), allocation of a fresh node, \<open>unlink\<close>, and the cursor insertions, on lists that
  satisfy the invariant.
\<close>

lemma first_or_drop: "i < length ns \<Longrightarrow> first_or (drop i ns) q = ns ! i"
  by (induction ns arbitrary: i) (auto simp: nth_Cons split: nat.splits)

lemma last_or_take: "i < length ns \<Longrightarrow> last_or (take (Suc i) ns) p = ns ! i"
  by (induction ns arbitrary: i p) (auto simp: nth_Cons split: nat.splits)

lemma first_or_take: "i < length ns \<Longrightarrow> first_or (take i ns) (ns ! i) = first_or ns q"
  by (cases ns; cases i) auto

lemma last_or_drop: "i < length ns \<Longrightarrow> last_or (drop (Suc i) ns) (ns ! i) = last_or ns p"
  by (induction ns arbitrary: i p) (auto simp: nth_Cons split: nat.splits)

lemma advance_next_nth:
  assumes "fpath (nxt h) ns q" and "i < length ns"
  shows "advance_next h (first_or ns q) i = Some (ns ! i)"
proof -
  have "fpath (nxt h) (take i ns @ drop i ns) q" using assms by simp
  then have "fpath (nxt h) (take i ns) (first_or (drop i ns) q)" by (simp del: append_take_drop_id)
  from advance_next_fpath[OF this] assms(2) show ?thesis
    by (simp add: first_or_drop first_or_take[of i ns q] min_def)
qed

lemma advance_prev_nth:
  assumes "bpath (prv h) p ns" and "i < length ns"
  shows "advance_prev h (last_or ns p) (length ns - 1 - i) = Some (ns ! i)"
proof -
  have "bpath (prv h) p (take (Suc i) ns @ drop (Suc i) ns)" using assms by simp
  then have "bpath (prv h) (last_or (take (Suc i) ns) p) (drop (Suc i) ns)" by (simp del: append_take_drop_id)
  from advance_prev_bpath[OF this] assms(2) show ?thesis
    by (simp add: last_or_take last_or_drop[of i ns p])
qed

lemma get_node_at_nth:
  assumes "is_list s l ns" and "i < length ns"
  shows "get_node_at s l i = Some (ns ! i)"
  using assms advance_next_nth[of "nodes s" ns NULL i] advance_prev_nth[of "nodes s" NULL ns i]
  by (auto simp: is_list_def dll_def get_node_at_def get_list_def split: if_splits)

lemma get_node_at_out:
  assumes "is_list s l ns" and "length ns \<le> i"
  shows "get_node_at s l i = Some NULL"
  using assms by (auto simp: is_list_def get_node_at_def get_list_def split: if_splits)


lemma nxt_fun_upd [simp]: "nxt (h(p \<mapsto> nd)) = (nxt h)(p \<mapsto> next nd)"
  by (auto simp: nxt_def)
lemma prv_fun_upd [simp]: "prv (h(p \<mapsto> nd)) = (prv h)(p \<mapsto> prev nd)"
  by (auto simp: prv_def)
lemma dat_fun_upd [simp]: "dat (h(p \<mapsto> nd)) = (dat h)(p \<mapsto> data nd)"
  by (auto simp: dat_def)

lemma fpath_live: "fpath N ns q \<Longrightarrow> a \<in> set ns \<Longrightarrow> a \<noteq> NULL \<and> N a \<noteq> None"
  by (induction ns) auto

lemma dll_live: "dll h ns \<Longrightarrow> a \<in> set ns \<Longrightarrow> a \<noteq> NULL \<and> h a \<noteq> None"
  using fpath_live[of "nxt h" ns NULL a] by (auto simp: dll_def nxt_def)

lemma dll_alloc:
  assumes "dll h ns" and "h p = None"
  shows "dll (h(p \<mapsto> nd)) ns"
proof -
  have "p \<notin> set ns" using dll_live[OF assms(1), of p] assms(2) by auto
  then show ?thesis using assms(1) by (simp add: dll_def)
qed

lemma dat_fun_upd_None [simp]: "dat (h(p := None)) = (dat h)(p := None)"
  by (auto simp: dat_def)
lemma nxt_fun_upd_None [simp]: "nxt (h(p := None)) = (nxt h)(p := None)"
  by (auto simp: nxt_def)
lemma prv_fun_upd_None [simp]: "prv (h(p := None)) = (prv h)(p := None)"
  by (auto simp: prv_def)

lemma unlink_chain:
  assumes "is_list s l (A @ n # C)"
  shows "\<exists>s'. unlink s l n = Some (the (dat (nodes s) n), s') \<and> is_list s' l (A @ C)
     \<and> dat (nodes s') = (dat (nodes s))(n := None) \<and> pool s' = pool s"
proof -
  have "dll (nodes s) (A @ n # C)" using assms by (simp add: is_list_def)
  from dll_live[OF this, of n] obtain d where d: "dat (nodes s) n = Some d"
    by (auto simp: dat_def)
  show ?thesis
proof (cases A rule: rev_cases)
  case Nil
  show ?thesis
  proof (cases C)
    case Nil
    with \<open>A = []\<close> assms d show ?thesis
      by (auto simp: is_list_def dll_def unlink_def access_eq on_nodes_def set_head_def set_tail_def
          set_size_def get_list_def put_list_def free_node_def size_dec_def fun_eq_iff
          split: if_splits)
  next
    case (Cons c C')
    with \<open>A = []\<close> assms d show ?thesis
      by (auto simp: is_list_def dll_def unlink_def access_eq on_nodes_def set_head_def set_tail_def
          set_size_def get_list_def put_list_def free_node_def size_dec_def fun_eq_iff
          split: if_splits)
  qed
next
  case (snoc A' a)
  show ?thesis
  proof (cases C)
    case Nil
    with snoc assms d show ?thesis
      by (auto simp: is_list_def dll_def unlink_def access_eq on_nodes_def set_head_def set_tail_def
          set_size_def get_list_def put_list_def free_node_def size_dec_def fun_eq_iff
          split: if_splits)
  next
    case (Cons c C')
    with snoc assms d show ?thesis
      by (auto simp: is_list_def dll_def unlink_def access_eq on_nodes_def set_head_def set_tail_def
          set_size_def get_list_def put_list_def free_node_def size_dec_def fun_eq_iff
          split: if_splits)
  qed
qed
qed

lemma fresh_node_proj [simp]:
  "nxt (fresh_node h p e) = (nxt h)(p \<mapsto> NULL)"
  "prv (fresh_node h p e) = (prv h)(p \<mapsto> NULL)"
  "dat (fresh_node h p e) = (dat h)(p \<mapsto> e)"
  by (simp_all add: fresh_node_def)

lemma calloc_set_data:
  assumes "pool s = p # ps" and "p \<noteq> NULL"
  shows "calloc_node s = (p, s\<lparr>nodes := (nodes s)(p \<mapsto> \<lparr>data = NULL, next = NULL, prev = NULL\<rparr>), pool := ps\<rparr>)"
    and "on_nodes (s\<lparr>nodes := (nodes s)(p \<mapsto> \<lparr>data = NULL, next = NULL, prev = NULL\<rparr>), pool := ps\<rparr>)
           (\<lambda>h. set_data h p e) = Some (s\<lparr>nodes := fresh_node (nodes s) p e, pool := ps\<rparr>)"
  using assms by (simp_all add: calloc_node_def on_nodes_def access_eq fresh_node_def)

lemma dll_fresh_node:
  assumes "dll h ns" and "h p = None"
  shows "dll (fresh_node h p e) ns" and "p \<notin> set ns"
proof -
  show "p \<notin> set ns" using dll_live[OF assms(1), of p] assms(2) by auto
  then show "dll (fresh_node h p e) ns" using assms(1) by (simp add: dll_def)
qed

lemma list_iter_add_chain:
  assumes "is_list s l (A @ a # nx # C)" and "length (A @ a # nx # C) < SIZE_MAX"
    and "pool s = p # ps" and "p \<noteq> NULL" and "nodes s p = None"
  shows "\<exists>s'. list_iter_add s \<lparr>it_index = i, it_list = l, it_last = lr, it_next = nx\<rparr> e
        = Some (True, \<lparr>it_index = size_inc i, it_list = l, it_last = p, it_next = nx\<rparr>, s')
     \<and> is_list s' l (A @ a # p # nx # C) \<and> dat (nodes s') = (dat (nodes s))(p \<mapsto> e)"
proof -
  let ?ns = "A @ a # nx # C"
  have dl: "dll (nodes s) ((A @ [a]) @ nx # C)"
    and gl: "get_list s l = Some \<lparr>size_l = length ?ns, head = first_or ?ns NULL, tail = last_or ?ns NULL\<rparr>"
    using assms(1) by (auto simp: is_list_def)
  from dll_fresh_node(1)[OF dl assms(5), of e] dll_fresh_node(2)[OF dl assms(5)]
  have d1: "dll (fresh_node (nodes s) p e) ((A @ [a]) @ nx # C)" and pn: "p \<notin> set ((A @ [a]) @ nx # C)"
    by auto
  from link_behind_fresh[OF d1 assms(4) pn]
  obtain h2 where h2: "link_behind (fresh_node (nodes s) p e) nx p = Some h2"
    "dll h2 ((A @ [a]) @ p # nx # C)" "dat h2 = dat (fresh_node (nodes s) p e)"
    by auto
  have lnz: "l \<noteq> NULL" using gl by (auto simp: get_list_def split: if_splits)
  let ?ns' = "A @ a # p # nx # C"
  define s' where "s' = s\<lparr>nodes := h2, pool := ps,
     lists := (lists s)(l \<mapsto> \<lparr>size_l = length ?ns', head = first_or ?ns' NULL, tail = last_or ?ns' NULL\<rparr>)\<rparr>"
  have run: "list_iter_add s \<lparr>it_index = i, it_list = l, it_last = lr, it_next = nx\<rparr> e
        = Some (True, \<lparr>it_index = size_inc i, it_list = l, it_last = p, it_next = nx\<rparr>, s')"
  proof -
    have st: "on_nodes (s\<lparr>nodes := fresh_node (nodes s) p e, pool := ps\<rparr>) (\<lambda>h. link_behind h nx p)
        = Some (s\<lparr>nodes := h2, pool := ps\<rparr>)"
      using h2(1) by (simp add: on_nodes_def)
    have sz: "size_inc (length ?ns) = length ?ns'"
      using assms(2) by (simp add: size_inc_def)
    show ?thesis
      using calloc_set_data(1)[OF assms(3,4)] calloc_set_data(2)[OF assms(3,4), of e] st gl lnz sz
      by (simp add: list_iter_add_def set_size_def get_list_def put_list_def s'_def)
  qed
  have "is_list s' l ?ns'"
    using h2(2) assms(2) lnz by (simp add: is_list_def s'_def get_list_def)
  moreover have "dat (nodes s') = (dat (nodes s))(p \<mapsto> e)"
    using h2(3) by (simp add: s'_def)
  ultimately show ?thesis using run by blast
qed

lemma list_diter_add_chain:
  assumes "is_list s l (A @ nx # a # C)" and "length (A @ nx # a # C) < SIZE_MAX"
    and "pool s = p # ps" and "p \<noteq> NULL" and "nodes s p = None"
  shows "\<exists>s'. list_diter_add s \<lparr>it_index = i, it_list = l, it_last = lr, it_next = nx\<rparr> e
        = Some (True, \<lparr>it_index = i, it_list = l, it_last = p, it_next = nx\<rparr>, s')
     \<and> is_list s' l (A @ nx # p # a # C) \<and> dat (nodes s') = (dat (nodes s))(p \<mapsto> e)"
proof -
  let ?ns = "A @ nx # a # C"
  have dl: "dll (nodes s) (A @ nx # a # C)"
    and gl: "get_list s l = Some \<lparr>size_l = length ?ns, head = first_or ?ns NULL, tail = last_or ?ns NULL\<rparr>"
    using assms(1) by (auto simp: is_list_def)
  from dll_fresh_node(1)[OF dl assms(5), of e] dll_fresh_node(2)[OF dl assms(5)]
  have d1: "dll (fresh_node (nodes s) p e) (A @ nx # a # C)" and pn: "p \<notin> set (A @ nx # a # C)"
    by auto
  from link_after_fresh[OF d1 assms(4) pn]
  obtain h2 where h2: "link_after (fresh_node (nodes s) p e) nx p = Some h2"
    "dll h2 (A @ nx # p # a # C)" "dat h2 = dat (fresh_node (nodes s) p e)"
    by auto
  have lnz: "l \<noteq> NULL" using gl by (auto simp: get_list_def split: if_splits)
  let ?ns' = "A @ nx # p # a # C"
  define s' where "s' = s\<lparr>nodes := h2, pool := ps,
     lists := (lists s)(l \<mapsto> \<lparr>size_l = length ?ns', head = first_or ?ns' NULL, tail = last_or ?ns' NULL\<rparr>)\<rparr>"
  have run: "list_diter_add s \<lparr>it_index = i, it_list = l, it_last = lr, it_next = nx\<rparr> e
        = Some (True, \<lparr>it_index = i, it_list = l, it_last = p, it_next = nx\<rparr>, s')"
  proof -
    have st: "on_nodes (s\<lparr>nodes := fresh_node (nodes s) p e, pool := ps\<rparr>) (\<lambda>h. link_after h nx p)
        = Some (s\<lparr>nodes := h2, pool := ps\<rparr>)"
      using h2(1) by (simp add: on_nodes_def)
    have sz: "size_inc (length ?ns) = length ?ns'"
      using assms(2) by (simp add: size_inc_def)
    show ?thesis
      using calloc_set_data(1)[OF assms(3,4)] calloc_set_data(2)[OF assms(3,4), of e] st gl lnz sz
      by (simp add: list_diter_add_def set_size_def get_list_def put_list_def s'_def)
  qed
  have "is_list s' l ?ns'"
    using h2(2) assms(2) lnz by (simp add: is_list_def s'_def get_list_def)
  moreover have "dat (nodes s') = (dat (nodes s))(p \<mapsto> e)"
    using h2(3) by (simp add: s'_def)
  ultimately show ?thesis using run by blast
qed

section \<open>Reversal\<close>

text \<open>
  The loop of \<open>list_reverse\<close> swaps the ends of a segment and continues inside; it
  reverses the segment.
\<close>

lemma first_or_hd: "xs \<noteq> [] \<Longrightarrow> first_or xs q = hd xs"
  by (cases xs) auto

lemma last_or_last: "xs \<noteq> [] \<Longrightarrow> last_or xs p = last xs"
  by (induction xs arbitrary: p) auto

lemma reverse_loop_chain:
  assumes "dll h (A @ X @ C)" and "2 \<le> length X \<longrightarrow> left = hd X \<and> right = last X"
  shows "\<exists>h'. reverse_loop (length X div 2) h left right = Some h'
     \<and> dll h' (A @ rev X @ C) \<and> dat h' = dat h"
  using assms
proof (induction "length X" arbitrary: X A C h left right rule: less_induct)
  case less
  show ?case
  proof (cases "length X < 2")
    case True
    then have "rev X = X" by (cases X; cases "tl X") auto
    with True less.prems(1) show ?thesis by simp
  next
    case False
    then obtain x M y where X: "X = x # M @ [y]"
      by (cases X; cases "tl X" rule: rev_cases) auto
    then have lr: "left = x" "right = y" using less.prems(2) by auto
    have k: "length X div 2 = Suc (length M div 2)" using X by simp
    from less.prems(1) X have dl: "dll h (A @ x # M @ y # C)" by simp
    then have nx: "get_next h x = Some (first_or M y)" and pv: "get_prev h y = Some (last_or M x)"
      by (auto simp: dll_def access_eq)
    show ?thesis
    proof (cases M)
      case Nil
      from swap_adjacent_chain[of h A x y C] dl Nil obtain h' where
        "swap h x y = Some h'" "dll h' (A @ y # x # C)" "dat h' = dat h" by auto
      then show ?thesis using X Nil lr nx pv by simp
    next
      case (Cons b B)
      from swap_apart_chain[of h A x b B y C] dl Cons obtain h' where
        h': "swap h x y = Some h'" "dll h' (A @ y # b # B @ x # C)" "dat h' = dat h" by auto
      have d': "dll h' ((A @ [y]) @ M @ (x # C))" using h'(2) Cons by simp
      have "length M < length X" using X by simp
      moreover have "2 \<le> length M \<longrightarrow> first_or M y = hd M \<and> last_or M x = last M"
        using Cons by (simp add: first_or_hd last_or_last)
      ultimately obtain h'' where "reverse_loop (length M div 2) h' (first_or M y) (last_or M x) = Some h''"
        "dll h'' ((A @ [y]) @ rev M @ (x # C))" "dat h'' = dat h'"
        using less.hyps[OF _ d', of "first_or M y" "last_or M x"] by blast
      then show ?thesis using X lr nx pv h'(1,3) k by simp
    qed
  qed
qed


lemma first_or_rev: "first_or (rev xs) q = last_or xs q"
  by (induction xs arbitrary: q) auto

lemma last_or_rev: "last_or (rev xs) p = first_or xs p"
  by (cases xs) auto

lemma list_reverse_chain:
  assumes "is_list s l ns"
  shows "\<exists>s'. list_reverse s l = Some s' \<and> is_list s' l (rev ns) \<and> dat (nodes s') = dat (nodes s)"
proof -
  have dl: "dll (nodes s) ([] @ ns @ [])"
    and gl: "get_list s l = Some \<lparr>size_l = length ns, head = first_or ns NULL, tail = last_or ns NULL\<rparr>"
    and sz: "length ns \<le> SIZE_MAX"
    using assms by (simp_all add: is_list_def)
  have lnz: "l \<noteq> NULL" using gl by (auto simp: get_list_def split: if_splits)
  have "2 \<le> length ns \<longrightarrow> first_or ns NULL = hd ns \<and> last_or ns NULL = last ns"
    by (cases ns) (auto simp: last_or_last)
  from reverse_loop_chain[OF dl this] obtain h' where
    h': "reverse_loop (length ns div 2) (nodes s) (first_or ns NULL) (last_or ns NULL) = Some h'"
    "dll h' (rev ns)" "dat h' = dat (nodes s)"
    by auto
  define s' where "s' = s\<lparr>nodes := h',
     lists := (lists s)(l \<mapsto> \<lparr>size_l = length ns, head = last_or ns NULL, tail = first_or ns NULL\<rparr>)\<rparr>"
  have "list_reverse s l = Some s'"
    using gl h'(1) lnz
    by (simp add: list_reverse_def on_nodes_def set_head_def set_tail_def get_list_def put_list_def
        s'_def)
  moreover have "is_list s' l (rev ns)"
    using h'(2) sz lnz by (simp add: is_list_def s'_def get_list_def first_or_rev last_or_rev)
  moreover have "dat (nodes s') = dat (nodes s)"
    using h'(3) by (simp add: s'_def)
  ultimately show ?thesis by blast
qed

section \<open>The sort on sequences\<close>

text \<open>
  The functional merge sort returns a permutation, sorts with respect to a total
  preorder, and keeps the order of the elements of any class whose members are mutually
  related (stability).
\<close>

lemma mset_spec_merge: "mset (spec_merge le xs ys) = mset xs + mset ys"
  by (induction le xs ys rule: spec_merge.induct) auto

lemma set_spec_merge: "set (spec_merge le xs ys) = set xs \<union> set ys"
  by (induction le xs ys rule: spec_merge.induct) auto

lemma spec_merge_Nil2 [simp]: "spec_merge le xs [] = xs"
  by (cases xs) auto

lemma spec_merge_eq_Nil [simp]: "spec_merge le xs ys = [] \<longleftrightarrow> xs = [] \<and> ys = []"
  by (induction le xs ys rule: spec_merge.induct) auto

lemma mset_spec_sort: "mset (spec_sort le xs) = mset xs"
proof (induction le xs rule: spec_sort.induct)
  case (1 le xs)
  show ?case
  proof (cases "length xs < 2")
    case True
    then show ?thesis by (subst spec_sort.simps) simp
  next
    case False
    have "mset (take (length xs div 2) xs) + mset (drop (length xs div 2) xs) = mset xs"
      by (metis append_take_drop_id mset_append)
    with False 1 show ?thesis
      by (subst spec_sort.simps) (simp add: mset_spec_merge)
  qed
qed

lemma set_spec_sort: "set (spec_sort le xs) = set xs"
  using mset_spec_sort[of le xs] by (metis set_mset_mset)

lemma length_spec_sort: "length (spec_sort le xs) = length xs"
  using mset_spec_sort[of le xs] by (metis size_mset)

lemma spec_sort_eq_Nil [simp]: "spec_sort le xs = [] \<longleftrightarrow> xs = []"
  using length_spec_sort[of le xs] by auto

lemma sorted_spec_merge:
  assumes "total_preorder le" and "sorted_wrt le xs" and "sorted_wrt le ys"
  shows "sorted_wrt le (spec_merge le xs ys)"
  using assms
proof (induction le xs ys rule: spec_merge.induct)
  case (3 le x xs y ys)
  from 3(3) have tot: "\<And>a b. le a b \<or> le b a" and tr: "\<And>a b c. le a b \<Longrightarrow> le b c \<Longrightarrow> le a c"
    unfolding total_preorder_def by blast+
  show ?case
  proof (cases "le x y")
    case True
    have "le x z" if "z \<in> set ys" for z
      using that 3(5) True tr by auto
    then have "\<forall>z \<in> set (spec_merge le xs (y # ys)). le x z"
      using True 3(4) by (auto simp: set_spec_merge)
    moreover have "sorted_wrt le (spec_merge le xs (y # ys))"
      using 3(1)[OF True 3(3)] 3(4,5) by simp
    ultimately show ?thesis using True by simp
  next
    case False
    then have yx: "le y x" using tot by blast
    have "le y z" if "z \<in> set xs" for z
      using that 3(4) yx tr by auto
    then have "\<forall>z \<in> set (spec_merge le (x # xs) ys). le y z"
      using yx 3(5) by (auto simp: set_spec_merge)
    moreover have "sorted_wrt le (spec_merge le (x # xs) ys)"
      using 3(2)[OF False 3(3)] 3(4,5) by simp
    ultimately show ?thesis using False by simp
  qed
qed simp_all

lemma sorted_spec_sort:
  assumes "total_preorder le"
  shows "sorted_wrt le (spec_sort le xs)"
  using assms
proof (induction le xs rule: spec_sort.induct)
  case (1 le xs)
  show ?case
  proof (cases "length xs < 2")
    case True
    then have "spec_sort le xs = xs" by (subst spec_sort.simps) simp
    moreover have "xs = [] \<or> (\<exists>x. xs = [x])" using True by (cases xs; cases "tl xs") auto
    ultimately show ?thesis by auto
  next
    case False
    have "sorted_wrt le (spec_sort le (take (length xs div 2) xs))"
      "sorted_wrt le (spec_sort le (drop (length xs div 2) xs))"
      using 1 False by simp_all
    from sorted_spec_merge[OF 1(3) this] False show ?thesis
      by (subst spec_sort.simps) simp
  qed
qed

lemma stable_spec_merge:
  assumes "total_preorder le" and "\<forall>a b. P a \<and> P b \<longrightarrow> le a b"
    and "sorted_wrt le xs" and "sorted_wrt le ys"
  shows "filter P (spec_merge le xs ys) = filter P xs @ filter P ys"
  using assms
proof (induction le xs ys rule: spec_merge.induct)
  case (3 le x xs y ys)
  from 3(3) have tr: "\<And>a b c. le a b \<Longrightarrow> le b c \<Longrightarrow> le a c"
    and tot: "\<And>a b. le a b \<or> le b a"
    unfolding total_preorder_def by blast+
  show ?case
  proof (cases "le x y")
    case True
    have "filter P (spec_merge le xs (y # ys)) = filter P xs @ filter P (y # ys)"
      using 3(1)[OF True 3(3,4)] 3(5,6) by simp
    then show ?thesis using True by simp
  next
    case False
    have ih: "filter P (spec_merge le (x # xs) ys) = filter P (x # xs) @ filter P ys"
      using 3(2)[OF False 3(3,4)] 3(5,6) by simp
    show ?thesis
    proof (cases "P y")
      case py: True
      have "\<not> P z" if "z \<in> set (x # xs)" for z
      proof
        assume a: "P z"
        have "le x z" using that 3(5) tot[of x x] by auto
        moreover have "le z y" using a py 3(4) by blast
        ultimately show False using False tr by blast
      qed
      then have "filter P (x # xs) = []"
        by (simp only: filter_empty_conv) blast
      with ih py False show ?thesis by simp
    next
      case npy: False
      with ih False show ?thesis by auto
    qed
  qed
qed simp_all

lemma stable_spec_sort:
  assumes "total_preorder le" and "\<forall>a b. P a \<and> P b \<longrightarrow> le a b"
  shows "filter P (spec_sort le xs) = filter P xs"
  using assms
proof (induction le xs rule: spec_sort.induct)
  case (1 le xs)
  show ?case
  proof (cases "length xs < 2")
    case True
    then show ?thesis by (subst spec_sort.simps) simp
  next
    case False
    let ?n = "length xs div 2"
    have ih: "filter P (spec_sort le (take ?n xs)) = filter P (take ?n xs)"
      "filter P (spec_sort le (drop ?n xs)) = filter P (drop ?n xs)"
      using 1 False by simp_all
    have "filter P (spec_sort le xs)
        = filter P (spec_merge le (spec_sort le (take ?n xs)) (spec_sort le (drop ?n xs)))"
      using False by (subst spec_sort.simps) simp
    also have "\<dots> = filter P (take ?n xs) @ filter P (drop ?n xs)"
      using stable_spec_merge[OF 1(3,4) sorted_spec_sort[OF 1(3)] sorted_spec_sort[OF 1(3)]] ih
      by simp
    also have "\<dots> = filter P (take ?n xs @ drop ?n xs)"
      by (simp only: filter_append)
    finally show ?thesis by simp
  qed
qed

section \<open>The sort on the heap\<close>

text \<open>
  The loop of \<open>merge\<close> refines the functional merge of the two runs, node by node; \<open>split\<close>
  refines the functional sort of a segment of the chain and leaves \<open>head\<close> and \<open>tail\<close> of
  the list on the ends of the segment it merged last.
\<close>

declare merge_loop.simps [simp del] split.simps [simp del]

lemma split_small: "size' < 2 \<Longrightarrow> split cmp s list b size' = Some (b, s)"
  by (simp add: split.simps)

lemma dll_data: "dll h ns \<Longrightarrow> a \<in> set ns \<Longrightarrow> get_data h a = Some (the (dat h a))"
  using dll_live[of h ns a] by (auto simp: access_eq dat_def)

lemma dll_seg_last:
  assumes "dll h (A @ X @ C)" and "X \<noteq> []"
  shows "advance_next h (hd X) (length X - 1) = Some (last X)"
proof -
  have "fpath (nxt h) X (first_or C NULL)" using assms(1) by (simp add: dll_def)
  from advance_next_nth[OF this, of "length X - 1"] assms(2) show ?thesis
    by (simp add: first_or_hd last_conv_nth)
qed

lemma merge_loop_chain:
  assumes "dll h (A @ M @ L @ R @ C)" and "dat h = D" and "R \<noteq> []"
    and "\<forall>a \<in> set R. node_le cmp D a a"
    and "l_size = l + length L" and "r_size = r + length R" and "i = l + r" and "i = length M"
    and "size' = l_size + r_size"
    and "l_part = first_or L (hd R)" and "r_part = hd R" and "left = first_or (M @ L) (hd R)"
    and "M = [] \<longrightarrow> L \<noteq> [] \<and> right = hd R \<and> (length R = 1 \<longrightarrow> length L = 1)"
  shows "\<exists>h'. merge_loop cmp l_size r_size size' h i l r l_part r_part left right
        = Some (h', hd (M @ spec_merge (node_le cmp D) L R), last (spec_merge (node_le cmp D) L R))
     \<and> dll h' (A @ M @ spec_merge (node_le cmp D) L R @ C) \<and> dat h' = D"
  using assms
proof (induction "length L + length R" arbitrary: h M L R i l r l_part r_part left rule: less_induct)
  case less
  let ?le = "node_le cmp D"
  note dl = less.prems(1)
  obtain y ys where R: "R = y # ys" using less.prems(3) by (cases R) auto
  have rp: "r_part = y" using less.prems(11) R by simp
  have isz: "i < size'" using less.prems(5-9) R by simp
  have dy: "get_data h y = Some (the (D y))"
    using dll_data[OF dl, of y] R less.prems(2) by simp
  show ?case
  proof (cases L)
    case Nil
    then have Mne: "M \<noteq> []" and i0: "i \<noteq> 0" using less.prems(13,8) by auto
    have lp: "l_part = y" "l = l_size" using less.prems(10,5) Nil R by simp_all
    have c: "cmp (the (D y)) (the (D y)) = - 1 \<or> cmp (the (D y)) (the (D y)) = 0"
      using less.prems(4) R by (simp add: node_le_def)
    have "dll h ((A @ M) @ R @ C)" using dl Nil by simp
    from dll_seg_last[OF this less.prems(3)]
    have adv: "advance_next h y (size_dec r_size - r) = Some (last R)"
      using less.prems(6) R by (simp add: size_dec_def)
    have "merge_loop cmp l_size r_size size' h i l r l_part r_part left right = Some (h, left, last R)"
      using isz dy c i0 lp rp adv by (subst merge_loop.simps) (auto simp: Let_def)
    moreover have "left = hd (M @ R)" using less.prems(12) Nil Mne by (simp add: first_or_hd)
    ultimately show ?thesis using dl Nil less.prems(2) by simp
  next
    case (Cons x xs)
    have lp: "l_part = x" using less.prems(10) Cons by simp
    have dx: "get_data h x = Some (the (D x))"
      using dll_data[OF dl, of x] Cons less.prems(2) by simp
    have ll: "l \<noteq> l_size" using less.prems(5) Cons by simp
    show ?thesis
    proof (cases "?le x y")
      case True
      then have c: "cmp (the (D x)) (the (D y)) = - 1 \<or> cmp (the (D x)) (the (D y)) = 0"
        by (simp add: node_le_def)
      have sm: "spec_merge ?le L R = x # spec_merge ?le xs R" using True Cons R by simp
      show ?thesis
      proof (cases "i = 0 \<and> size' = 2")
        case exit: True
        then have "M = []" "xs = []" "ys = []" using less.prems(5-9) Cons R by auto
        moreover have "merge_loop cmp l_size r_size size' h i l r l_part r_part left right = Some (h, left, right)"
          using isz dx dy c lp rp exit by (subst merge_loop.simps) (auto simp: Let_def)
        ultimately show ?thesis using dl less.prems(2,12,13) Cons R True by simp
      next
        case False
        have nx: "get_next h x = Some (first_or xs y)"
          using dl Cons R by (auto simp: dll_def access_eq)
        have step: "merge_loop cmp l_size r_size size' h i l r l_part r_part left right
            = merge_loop cmp l_size r_size size' h (i + 1) (l + 1) r (first_or xs y) r_part left right"
          using isz dx dy c lp rp False ll nx by (subst merge_loop.simps) (auto simp: Let_def)
        have p0: "length xs + length R < length L + length R" using Cons by simp
        have p1: "dll h (A @ (M @ [x]) @ xs @ R @ C)" using dl Cons by simp
        have p5: "l_size = (l + 1) + length xs" using less.prems(5) Cons by simp
        have p7: "i + 1 = (l + 1) + r" using less.prems(7) by simp
        have p8: "i + 1 = length (M @ [x])" using less.prems(8) by simp
        have p10: "first_or xs y = first_or xs (hd R)" using R by simp
        have p12: "left = first_or ((M @ [x]) @ xs) (hd R)" using less.prems(12) Cons by simp
        have p13: "M @ [x] = [] \<longrightarrow> xs \<noteq> [] \<and> right = hd R \<and> (length R = 1 \<longrightarrow> length xs = 1)"
          by simp
        from less.hyps[where L = xs and R = R and h = h and M = "M @ [x]" and l = "l + 1"
            and i = "i + 1" and r = r and l_part = "first_or xs y" and r_part = r_part
            and left = left,
            OF p0 p1 less.prems(2,3,4) p5 less.prems(6) p7 p8 less.prems(9) p10 less.prems(11) p12 p13]
        obtain h' where h': "merge_loop cmp l_size r_size size' h (i + 1) (l + 1) r (first_or xs y) r_part left right
            = Some (h', hd ((M @ [x]) @ spec_merge ?le xs R), last (spec_merge ?le xs R))"
          "dll h' (A @ (M @ [x]) @ spec_merge ?le xs R @ C)" "dat h' = D"
          by blast
        have "spec_merge ?le xs R \<noteq> []" using R by simp
        then show ?thesis using step h' sm by auto
      qed
    next
      case False
      then have c: "\<not> (cmp (the (D x)) (the (D y)) = - 1 \<or> cmp (the (D x)) (the (D y)) = 0)"
        by (simp add: node_le_def)
      have sm: "spec_merge ?le L R = y # spec_merge ?le L ys" using False Cons R by simp
      have tmp: "get_next h y = Some (first_or (ys @ C) NULL)"
        using dl Cons R by (auto simp: dll_def access_eq)
      have "dll h ((A @ M) @ x # xs @ y # (ys @ C))" using dl Cons R by simp
      from link_behind_chain[OF this] obtain h1 where
        h1: "link_behind h x y = Some h1" "dll h1 ((A @ M) @ y # x # xs @ ys @ C)" "dat h1 = dat h"
        by auto
      show ?thesis
      proof (cases "i = 0 \<and> size' = 2")
        case exit: True
        then have "M = []" "xs = []" "ys = []" using less.prems(5-9) Cons R by auto
        moreover have "merge_loop cmp l_size r_size size' h i l r l_part r_part left right = Some (h1, y, x)"
          using isz dx dy c lp rp exit tmp h1(1) by (subst merge_loop.simps) (auto simp: Let_def)
        ultimately show ?thesis using h1(2,3) less.prems(2) Cons R False by simp
      next
        case nexit: False
        show ?thesis
        proof (cases ys)
          case Nil
          have rr: "r + 1 = r_size" using less.prems(6) R Nil by simp
          have Mne: "M \<noteq> []"
          proof
            assume "M = []"
            then have "length L = 1" "i = 0" using less.prems(13,8) R Nil by auto
            then show False using nexit less.prems(5-9) R Nil by simp
          qed
          have "dll h1 ((A @ M @ [y]) @ L @ C)" using h1(2) Cons Nil by simp
          from dll_seg_last[OF this] Cons
          have adv: "advance_next h1 x (size_dec l_size - l) = Some (last L)"
            using less.prems(5) by (simp add: size_dec_def)
          have "merge_loop cmp l_size r_size size' h i l r l_part r_part left right = Some (h1, left, last L)"
            using isz dx dy c lp rp nexit tmp h1(1) rr adv
            by (subst merge_loop.simps) (auto simp: Let_def)
          moreover have "left = hd (M @ y # L)" using less.prems(12) Mne by (simp add: first_or_hd)
          ultimately show ?thesis using h1(2,3) less.prems(2) Cons R Nil sm by simp
        next
          case (Cons y' ys')
          have rr: "r + 1 \<noteq> r_size" using less.prems(6) R Cons by simp
          have step: "merge_loop cmp l_size r_size size' h i l r l_part r_part left right
              = merge_loop cmp l_size r_size size' h1 (i + 1) l (r + 1) x y' (if i = 0 then y else left) right"
            using isz dx dy c lp rp nexit tmp h1(1) rr Cons
            by (subst merge_loop.simps) (auto simp: Let_def)
          have p0: "length L + length ys < length L + length R" using R by simp
          have p1: "dll h1 (A @ (M @ [y]) @ L @ ys @ C)" using h1(2) \<open>L = x # xs\<close> by simp
          have p2: "dat h1 = D" using h1(3) less.prems(2) by simp
          have p3: "ys \<noteq> []" using Cons by simp
          have p4: "\<forall>a \<in> set ys. node_le cmp D a a" using less.prems(4) R by simp
          have p6: "r_size = (r + 1) + length ys" using less.prems(6) R by simp
          have p7: "i + 1 = l + (r + 1)" using less.prems(7) by simp
          have p8: "i + 1 = length (M @ [y])" using less.prems(8) by simp
          have p10: "x = first_or L (hd ys)" using \<open>L = x # xs\<close> by simp
          have p11: "y' = hd ys" using Cons by simp
          have p12: "(if i = 0 then y else left) = first_or ((M @ [y]) @ L) (hd ys)"
            using less.prems(8,12) by (cases M) auto
          have p13: "M @ [y] = [] \<longrightarrow> L \<noteq> [] \<and> right = hd ys \<and> (length ys = 1 \<longrightarrow> length L = 1)"
            by simp
          from less.hyps[where L = L and R = ys and h = h1 and M = "M @ [y]" and l = l
              and i = "i + 1" and r = "r + 1" and l_part = x and r_part = y'
              and left = "if i = 0 then y else left",
              OF p0 p1 p2 p3 p4 less.prems(5) p6 p7 p8 less.prems(9) p10 p11 p12 p13]
          obtain h' where h': "merge_loop cmp l_size r_size size' h1 (i + 1) l (r + 1) x y' (if i = 0 then y else left) right
              = Some (h', hd ((M @ [y]) @ spec_merge ?le L ys), last (spec_merge ?le L ys))"
            "dll h' (A @ (M @ [y]) @ spec_merge ?le L ys @ C)" "dat h' = D"
            by blast
          have "spec_merge ?le L ys \<noteq> []" using Cons by simp
          then show ?thesis using step h' sm by auto
        qed
      qed
    qed
  qed
qed

lemma merge_chain:
  assumes "dll h (A @ L @ R @ C)" and "L \<noteq> []" and "R \<noteq> []"
    and "length R = 1 \<longrightarrow> length L = 1" and "length L + length R \<le> SIZE_MAX"
    and "\<forall>a \<in> set R. node_le cmp (dat h) a a"
  shows "\<exists>h'. merge cmp h (hd L) (hd R) (length L) (length R)
        = Some (h', hd (spec_merge (node_le cmp (dat h)) L R), last (spec_merge (node_le cmp (dat h)) L R))
     \<and> dll h' (A @ spec_merge (node_le cmp (dat h)) L R @ C) \<and> dat h' = dat h"
proof -
  have sz: "size_add (length R) (length L) = length L + length R"
    using assms(5) by (simp add: size_add_def)
  have p1: "dll h (A @ [] @ L @ R @ C)" using assms(1) by simp
  have p12: "hd L = first_or ([] @ L) (hd R)" and p10: "hd L = first_or L (hd R)"
    using assms(2) by (simp_all add: first_or_hd)
  have p13: "[] = [] \<longrightarrow> L \<noteq> [] \<and> hd R = hd R \<and> (length R = 1 \<longrightarrow> length L = 1)"
    using assms(2,4) by simp
  from merge_loop_chain[where M = "[]" and l = 0 and r = 0 and i = 0 and right = "hd R",
      OF p1 refl assms(3,6) _ _ _ _ refl p10 refl p12 p13]
  show ?thesis by (simp add: merge_def sz)
qed

lemma dll_seg_nth:
  assumes "dll h (A @ X @ C)" and "i < length X"
  shows "advance_next h (hd X) i = Some (X ! i)"
proof -
  have "fpath (nxt h) X (first_or C NULL)" using assms(1) by (simp add: dll_def)
  from advance_next_nth[OF this assms(2)] assms(2) show ?thesis
    by (cases X) auto
qed

lemma split_chain:
  assumes "dll (nodes s) (A @ X @ C)" and "length X = size'" and "X \<noteq> [] \<longrightarrow> b = hd X"
    and "get_list s list = Some L0" and "size' \<le> SIZE_MAX"
    and "\<forall>a \<in> set X. node_le cmp D a a" and "dat (nodes s) = D"
  shows "\<exists>s' L'. split cmp s list b size'
        = Some (if X = [] then b else hd (spec_sort (node_le cmp D) X), s')
     \<and> dll (nodes s') (A @ spec_sort (node_le cmp D) X @ C) \<and> dat (nodes s') = D
     \<and> get_list s' list = Some L' \<and> size_l L' = size_l L0
     \<and> (if size' < 2 then L' = L0
         else head L' = hd (spec_sort (node_le cmp D) X) \<and> tail L' = last (spec_sort (node_le cmp D) X))"
  using assms
proof (induction size' arbitrary: s A X C b L0 rule: less_induct)
  case (less size')
  let ?le = "node_le cmp D"
  show ?case
  proof (cases "size' < 2")
    case True
    then have "spec_sort ?le X = X" using less.prems(2) by (subst spec_sort.simps) simp
    moreover have "split cmp s list b size' = Some (b, s)" using True by (rule split_small)
    ultimately show ?thesis using True less.prems by auto
  next
    case False
    let ?l = "size' div 2" and ?r = "size' div 2 + size' mod 2"
    let ?XL = "take ?l X" and ?XR = "drop ?l X"
    let ?SL = "spec_sort ?le ?XL" and ?SR = "spec_sort ?le ?XR"
    have ar: "?r = size' - ?l" "?r < size'" "1 \<le> ?l" "?l \<le> ?r" "?l < size'"
      using False by presburger+
    have lens: "length ?XL = ?l" "length ?XR = ?r" "?l < size'" "?r < size'" "1 \<le> ?l" "?l \<le> ?r"
      using ar less.prems(2) by simp_all
    have ne: "?XL \<noteq> []" "?XR \<noteq> []" "X \<noteq> []" using lens False less.prems(2) by auto
    have X: "X = ?XL @ ?XR" by simp
    have b: "b = hd X" using less.prems(3) ne by simp
    have center: "advance_next (nodes s) b ?l = Some (hd ?XR)"
      using dll_seg_nth[OF less.prems(1), of ?l] lens less.prems(2) b
      by (simp add: hd_drop_conv_nth)
    \<comment> \<open>the left half\<close>
    have e1: "A @ ?XL @ (?XR @ C) = A @ X @ C" by (metis append_assoc append_take_drop_id)
    have a1: "dll (nodes s) (A @ ?XL @ (?XR @ C))" unfolding e1 by (rule less.prems(1))
    have b1: "?XL \<noteq> [] \<longrightarrow> b = hd ?XL" using b ne by (simp add: hd_take)
    have r1: "\<forall>a \<in> set ?XL. ?le a a" using less.prems(6) by (meson in_set_takeD)
    from less.IH[OF lens(3) a1 lens(1) b1 less.prems(4) _ r1 less.prems(7)] lens(3) less.prems(5) ne
    obtain s1 L1 where s1: "split cmp s list b ?l = Some (hd ?SL, s1)"
      "dll (nodes s1) (A @ ?SL @ ?XR @ C)" "dat (nodes s1) = D"
      "get_list s1 list = Some L1" "size_l L1 = size_l L0"
      by auto
    \<comment> \<open>the right half\<close>
    have a2: "dll (nodes s1) ((A @ ?SL) @ ?XR @ C)" using s1(2) by simp
    have b2: "?XR \<noteq> [] \<longrightarrow> hd ?XR = hd ?XR" by simp
    have r2: "\<forall>a \<in> set ?XR. ?le a a" using less.prems(6) by (meson in_set_dropD)
    from less.IH[OF lens(4) a2 lens(2) b2 s1(4) _ r2 s1(3)] lens(4) less.prems(5) ne
    obtain s2 L2 where s2: "split cmp s1 list (hd ?XR) ?r = Some (hd ?SR, s2)"
      "dll (nodes s2) ((A @ ?SL) @ ?SR @ C)" "dat (nodes s2) = D"
      "get_list s2 list = Some L2" "size_l L2 = size_l L1"
      by auto
    \<comment> \<open>the merge\<close>
    have a3: "dll (nodes s2) (A @ ?SL @ ?SR @ C)" using s2(2) by simp
    have l3: "length ?SL = ?l" "length ?SR = ?r" using lens by (simp_all add: length_spec_sort)
    have n3: "?SL \<noteq> []" "?SR \<noteq> []" using ne by simp_all
    have c3: "length ?SR = 1 \<longrightarrow> length ?SL = 1" using l3 lens by auto
    have "?l + ?r = size'" by presburger
    then have z3: "length ?SL + length ?SR \<le> SIZE_MAX" using l3 less.prems(5) by simp
    have r3: "\<forall>a \<in> set ?SR. node_le cmp (dat (nodes s2)) a a"
      using r2 s2(3) by (simp add: set_spec_sort)
    have sm: "spec_sort ?le X = spec_merge ?le ?SL ?SR"
      using False less.prems(2) by (subst spec_sort.simps) simp
    from merge_chain[OF a3 n3 c3 z3 r3] l3 s2(3) sm
    obtain h3 where h3: "merge cmp (nodes s2) (hd ?SL) (hd ?SR) ?l ?r
        = Some (h3, hd (spec_sort ?le X), last (spec_sort ?le X))"
      "dll h3 (A @ spec_sort ?le X @ C)" "dat h3 = D"
      by auto
    define L' where "L' = L2\<lparr>head := hd (spec_sort ?le X), tail := last (spec_sort ?le X)\<rparr>"
    define s' where "s' = s2\<lparr>nodes := h3, lists := (lists s2)(list \<mapsto> L')\<rparr>"
    have lnz: "list \<noteq> NULL" using s2(4) by (auto simp: get_list_def split: if_splits)
    have run: "split cmp s list b size' = Some (hd (spec_sort ?le X), s')"
      using False center s1(1) s2(1) h3(1) s2(4) lnz
      by (subst split.simps)
        (simp add: Let_def set_head_def set_tail_def get_list_def put_list_def s'_def L'_def)
    have "get_list s' list = Some L'" using lnz by (simp add: s'_def get_list_def)
    moreover have "size_l L' = size_l L0" using s1(5) s2(5) by (simp add: L'_def)
    moreover have "head L' = hd (spec_sort ?le X)" "tail L' = last (spec_sort ?le X)"
      by (simp_all add: L'_def)
    moreover have "dll (nodes s') (A @ spec_sort ?le X @ C)" "dat (nodes s') = D"
      using h3(2,3) by (simp_all add: s'_def)
    ultimately show ?thesis using run False ne by auto
  qed
qed

lemma node_le_iff:
  assumes "three_way cmp"
  shows "node_le cmp D a b \<longleftrightarrow> cmp (the (D a)) (the (D b)) \<le> 0"
proof -
  have "cmp x y = - 1 \<or> cmp x y = 0 \<or> cmp x y = 1" for x y
    using assms unfolding three_way_def by blast
  from this[of "the (D a)" "the (D b)"] show ?thesis
    unfolding node_le_def by auto
qed

lemma node_le_preorder:
  assumes "three_way cmp"
  shows "total_preorder (node_le cmp D)"
proof -
  have sym: "cmp y x = - cmp x y" for x y
    using assms unfolding three_way_def by blast
  have tot: "cmp x y \<le> 0 \<or> cmp y x \<le> 0" for x y
    using sym[of x y] by linarith
  have tr: "cmp x y \<le> 0 \<Longrightarrow> cmp y z \<le> 0 \<Longrightarrow> cmp x z \<le> 0" for x y z
    using assms unfolding three_way_def by blast
  show ?thesis
    unfolding total_preorder_def node_le_iff[OF assms]
  proof (intro conjI allI impI)
    fix x y show "cmp (the (D x)) (the (D y)) \<le> 0 \<or> cmp (the (D y)) (the (D x)) \<le> 0"
      by (rule tot)
  next
    fix x y z
    assume "cmp (the (D x)) (the (D y)) \<le> 0 \<and> cmp (the (D y)) (the (D z)) \<le> 0"
    then show "cmp (the (D x)) (the (D z)) \<le> 0" using tr by blast
  qed
qed

lemma list_sort_chain:
  assumes "is_list s l ns" and "\<forall>a \<in> set ns. node_le cmp (dat (nodes s)) a a"
  shows "\<exists>s'. list_sort s l cmp = Some s'
     \<and> is_list s' l (spec_sort (node_le cmp (dat (nodes s))) ns) \<and> dat (nodes s') = dat (nodes s)"
proof -
  let ?S = "spec_sort (node_le cmp (dat (nodes s))) ns"
  have dl: "dll (nodes s) ([] @ ns @ [])"
    and gl: "get_list s l = Some \<lparr>size_l = length ns, head = first_or ns NULL, tail = last_or ns NULL\<rparr>"
    and sz: "length ns \<le> SIZE_MAX"
    using assms(1) by (simp_all add: is_list_def)
  have b: "ns \<noteq> [] \<longrightarrow> first_or ns NULL = hd ns" by (simp add: first_or_hd)
  from split_chain[OF dl refl b gl sz assms(2) refl]
  obtain s' L' where s': "split cmp s l (first_or ns NULL) (length ns)
        = Some (if ns = [] then first_or ns NULL else hd ?S, s')"
    "dll (nodes s') ?S" "dat (nodes s') = dat (nodes s)"
    "get_list s' l = Some L'" "size_l L' = length ns"
    "if length ns < 2 then L' = \<lparr>size_l = length ns, head = first_or ns NULL, tail = last_or ns NULL\<rparr>
     else head L' = hd ?S \<and> tail L' = last ?S"
    by auto
  have run: "list_sort s l cmp = Some s'"
    using gl s'(1) by (simp add: list_sort_def)
  have "L' = \<lparr>size_l = length ?S, head = first_or ?S NULL, tail = last_or ?S NULL\<rparr>"
  proof (cases "length ns < 2")
    case True
    then have "?S = ns" by (subst spec_sort.simps) simp
    with True s'(6) show ?thesis by simp
  next
    case False
    then have "?S \<noteq> []" by auto
    with False s'(5,6) show ?thesis
      by (simp add: first_or_hd last_or_last length_spec_sort)
  qed
  then have "is_list s' l ?S"
    using s'(2,4) sz by (simp add: is_list_def length_spec_sort)
  with run s'(3) show ?thesis by blast
qed

text \<open>
  The sort needs less of the comparator than the three-way contract: it reads only whether
  the answer is \<open>-1\<close> or \<open>0\<close>. For every comparator that answers exactly \<open>-1\<close> for "less"
  and exactly \<open>0\<close> for "equal" the relation "answers \<open>-1\<close> or \<open>0\<close>" is a total preorder, and
  the sorted list is ordered by it, stably.
\<close>

lemma three_way_exact:
  assumes "three_way cmp"
  shows "exact_less_equal cmp"
proof -
  have rg: "cmp x y = - 1 \<or> cmp x y = 0 \<or> cmp x y = 1" for x y
    using assms unfolding three_way_def by blast
  have rx: "cmp x x = 0" for x
    using assms unfolding three_way_def by blast
  have sym: "cmp y x = - cmp x y" for x y
    using assms unfolding three_way_def by blast
  have tr: "cmp x y \<le> 0 \<Longrightarrow> cmp y z \<le> 0 \<Longrightarrow> cmp x z \<le> 0" for x y z
    using assms unfolding three_way_def by blast
  have le: "(cmp x y = - 1 \<or> cmp x y = 0) = (cmp x y \<le> 0)" for x y
    using rg[of x y] by auto
  have a: "(cmp x y = - 1) = (cmp y x \<noteq> - 1 \<and> cmp y x \<noteq> 0)" for x y
    using rg[of x y] sym[of x y] by auto
  show ?thesis
    unfolding exact_less_equal_def le
    using rx a tr by blast
qed

lemma exact_preorder:
  assumes "exact_less_equal cmp"
  shows "total_preorder (node_le cmp D)"
proof -
  have a: "(cmp x y = - 1) = (cmp y x \<noteq> - 1 \<and> cmp y x \<noteq> 0)" for x y
    using assms unfolding exact_less_equal_def by blast
  have tr: "(cmp x y = - 1 \<or> cmp x y = 0) \<Longrightarrow> (cmp y z = - 1 \<or> cmp y z = 0)
      \<Longrightarrow> cmp x z = - 1 \<or> cmp x z = 0" for x y z
    using assms unfolding exact_less_equal_def by blast
  show ?thesis
    unfolding total_preorder_def node_le_def
  proof (intro conjI allI impI)
    fix x y
    show "(cmp (the (D x)) (the (D y)) = - 1 \<or> cmp (the (D x)) (the (D y)) = 0)
        \<or> (cmp (the (D y)) (the (D x)) = - 1 \<or> cmp (the (D y)) (the (D x)) = 0)"
      using a[of "the (D x)" "the (D y)"] by blast
  next
    fix x y z
    assume "(cmp (the (D x)) (the (D y)) = - 1 \<or> cmp (the (D x)) (the (D y)) = 0)
        \<and> (cmp (the (D y)) (the (D z)) = - 1 \<or> cmp (the (D y)) (the (D z)) = 0)"
    then show "cmp (the (D x)) (the (D z)) = - 1 \<or> cmp (the (D x)) (the (D z)) = 0"
      using tr by blast
  qed
qed

lemma list_sort_exact:
  assumes "is_list s l ns" and "exact_less_equal cmp"
  shows "\<exists>s' ns'. list_sort s l cmp = Some s' \<and> is_list s' l ns'
     \<and> ns' = spec_sort (node_le cmp (dat (nodes s))) ns
     \<and> mset ns' = mset ns \<and> dat (nodes s') = dat (nodes s)
     \<and> mset (elems (nodes s') ns') = mset (elems (nodes s) ns)
     \<and> sorted_wrt (\<lambda>x y. cmp x y = - 1 \<or> cmp x y = 0) (elems (nodes s') ns')
     \<and> (\<forall>k. filter (\<lambda>a. cmp k (the (dat (nodes s) a)) = 0) ns'
            = filter (\<lambda>a. cmp k (the (dat (nodes s) a)) = 0) ns)"
proof -
  let ?D = "dat (nodes s)"
  let ?le = "node_le cmp ?D"
  let ?S = "spec_sort ?le ns"
  have rx: "\<And>x. cmp x x = 0"
    and a: "\<And>x y. (cmp x y = - 1) = (cmp y x \<noteq> - 1 \<and> cmp y x \<noteq> 0)"
    and tr: "\<And>x y z. (cmp x y = - 1 \<or> cmp x y = 0) \<Longrightarrow> (cmp y z = - 1 \<or> cmp y z = 0)
      \<Longrightarrow> cmp x z = - 1 \<or> cmp x z = 0"
    using assms(2) unfolding exact_less_equal_def by blast+
  have rf: "\<forall>a \<in> set ns. ?le a a" by (simp add: node_le_def rx)
  from list_sort_chain[OF assms(1) rf] obtain s' where
    s': "list_sort s l cmp = Some s'" "is_list s' l ?S" "dat (nodes s') = ?D"
    by blast
  have po: "total_preorder ?le" by (rule exact_preorder[OF assms(2)])
  have ms: "mset ?S = mset ns" by (rule mset_spec_sort)
  have el: "elems (nodes s') ?S = map (\<lambda>a. the (?D a)) ?S" "elems (nodes s) ns = map (\<lambda>a. the (?D a)) ns"
    using s'(3) by (simp_all add: elems_def)
  have me: "mset (elems (nodes s') ?S) = mset (elems (nodes s) ns)"
    unfolding el using ms by (metis mset_map)
  have "sorted_wrt ?le ?S" by (rule sorted_spec_sort[OF po])
  then have "sorted_wrt (\<lambda>a b. cmp (the (?D a)) (the (?D b)) = - 1 \<or> cmp (the (?D a)) (the (?D b)) = 0) ?S"
    by (rule sorted_wrt_mono_rel[rotated]) (simp add: node_le_def)
  then have so: "sorted_wrt (\<lambda>x y. cmp x y = - 1 \<or> cmp x y = 0) (elems (nodes s') ?S)"
    unfolding el by (simp add: sorted_wrt_map)
  have st: "filter (\<lambda>a. cmp k (the (?D a)) = 0) ?S = filter (\<lambda>a. cmp k (the (?D a)) = 0) ns" for k
  proof (rule stable_spec_sort[OF po])
    show "\<forall>a b. cmp k (the (?D a)) = 0 \<and> cmp k (the (?D b)) = 0 \<longrightarrow> ?le a b"
    proof (intro allI impI)
      fix a b
      assume e: "cmp k (the (?D a)) = 0 \<and> cmp k (the (?D b)) = 0"
      have "cmp (the (?D a)) k = 0"
        using e a[of k "the (?D a)"] a[of "the (?D a)" k] by auto
      then have "cmp (the (?D a)) (the (?D b)) = - 1 \<or> cmp (the (?D a)) (the (?D b)) = 0"
        using e tr[of "the (?D a)" k "the (?D b)"] by blast
      then show "?le a b" by (simp add: node_le_def)
    qed
  qed
  from s'(1,2,3) ms me so st show ?thesis by blast
qed

text \<open>
  A list of two nodes is one merge step: \<open>merge\<close> compares the two payloads once and
  leaves the loop at once (\<open>i == 0 && size == 2\<close>), whatever the comparator answers.
\<close>

lemma list_sort_pair:
  assumes "is_list s l [a, b]"
  shows "\<exists>s'. list_sort s l cmp = Some s'
     \<and> is_list s' l (if cmp (the (dat (nodes s) a)) (the (dat (nodes s) b)) = - 1
                        \<or> cmp (the (dat (nodes s) a)) (the (dat (nodes s) b)) = 0
                     then [a, b] else [b, a])
     \<and> dat (nodes s') = dat (nodes s)"
proof -
  let ?h = "nodes s"
  have dl: "dll ?h [a, b]"
    and gl: "get_list s l = Some \<lparr>size_l = 2, head = a, tail = b\<rparr>"
    using assms by (simp_all add: is_list_def)
  have ln: "l \<noteq> NULL" using gl by (auto simp: get_list_def split: if_splits)
  have ctr: "get_next ?h a = Some b"
    using dl by (auto simp: dll_def access_eq)
  have da: "get_data ?h a = Some (the (dat ?h a))" and db: "get_data ?h b = Some (the (dat ?h b))"
    using dll_data[OF dl] by simp_all
  have nb: "get_next ?h b = Some NULL"
    using dl by (auto simp: dll_def access_eq)
  have sa: "size_add (Suc 0) (Suc 0) = 2" by (simp add: size_add_def SIZE_MAX_def)
  from link_behind_chain[of ?h "[]" a "[]" b "[]"] dl obtain h' where
    lb: "link_behind ?h a b = Some h'" "dll h' [b, a]" "dat h' = dat ?h"
    by auto
  show ?thesis
  proof (cases "cmp (the (dat ?h a)) (the (dat ?h b)) = - 1 \<or> cmp (the (dat ?h a)) (the (dat ?h b)) = 0")
    case True
    have mg: "merge cmp ?h a b (Suc 0) (Suc 0) = Some (?h, a, b)"
      unfolding merge_def sa
      by (subst merge_loop.simps) (use True da db in auto)
    have "list_sort s l cmp = Some (put_list (put_list (s\<lparr>nodes := ?h\<rparr>) l \<lparr>size_l = 2, head = a, tail = b\<rparr>) l \<lparr>size_l = 2, head = a, tail = b\<rparr>)"
      unfolding list_sort_def
      apply (subst split.simps)
      using gl ln
      apply (simp add: ctr split_small mg set_head_def set_tail_def get_list_def put_list_def)
      done
    moreover have "is_list (put_list (put_list (s\<lparr>nodes := ?h\<rparr>) l \<lparr>size_l = 2, head = a, tail = b\<rparr>) l \<lparr>size_l = 2, head = a, tail = b\<rparr>) l [a, b]"
      using assms ln by (simp add: is_list_def put_list_def get_list_def)
    ultimately show ?thesis using True by (simp add: put_list_def)
  next
    case False
    have mg: "merge cmp ?h a b (Suc 0) (Suc 0) = Some (h', b, a)"
      unfolding merge_def sa
      by (subst merge_loop.simps) (use False da db nb lb(1) in auto)
    have "list_sort s l cmp = Some (put_list (put_list (s\<lparr>nodes := h'\<rparr>) l \<lparr>size_l = 2, head = b, tail = b\<rparr>) l \<lparr>size_l = 2, head = b, tail = a\<rparr>)"
      unfolding list_sort_def
      apply (subst split.simps)
      using gl ln
      apply (simp add: ctr split_small mg set_head_def set_tail_def get_list_def put_list_def)
      done
    moreover have "is_list (put_list (put_list (s\<lparr>nodes := h'\<rparr>) l \<lparr>size_l = 2, head = b, tail = b\<rparr>) l \<lparr>size_l = 2, head = b, tail = a\<rparr>) l [b, a]"
      using assms ln lb(2) by (simp add: is_list_def put_list_def get_list_def)
    ultimately show ?thesis using False lb(3) by (simp add: put_list_def)
  qed
qed

section \<open>Evaluation on the example state\<close>

text \<open>
  Facts about the example state and the simplification rules that run the operations on
  it. A bind is evaluated left to right: the continuation is only simplified once its
  argument is known.
\<close>

lemmas ex_simps = ex_state_def is_list_def dll_def nxt_def prv_def dat_def get_list_def
  SIZE_MAX_def elems_def

lemma four_eq: "(4::nat) = Suc (Suc (Suc (Suc 0)))"
  by simp

lemma ex_elems: "elems (nodes ex_state) [11, 12, 13] = [10, 20, 30]"
  by (simp add: ex_simps)

lemma ex_elems2: "elems (nodes ex_state) [11] = [10]" "elems (nodes ex_state) [12, 13] = [20, 30]"
  by (simp_all add: ex_simps)

lemma ex_lists:
  "is_list ex_state 100 [11, 12, 13]" "is_list ex_state 101 [14]"
  "is_list ex_state 102 []" "is_list ex_state 103 []" "is_list ex_state 104 [21, 22]"
  "is_list ex_state 105 [31, 32, 33]"
  by (simp_all add: ex_simps)

lemma bind_weak_cong: "m = m' \<Longrightarrow> Option.bind m f = Option.bind m' f"
  by simp

lemmas raw_simps = on_nodes_def get_next_def get_prev_def get_data_def set_next_def set_prev_def
  set_data_def deref_def set_head_def set_tail_def set_size_def get_list_def
  put_list_def size_add_def SIZE_MAX_def



section \<open>Claims about the bulk append\<close>

text \<open>
  Claim C4. \<open>list_add_all\<close> hands \<open>list_add_all_at\<close> the index \<open>list1->size\<close>, and
  \<open>list_add_all_at\<close> rejects every index that is not below that size before it
  allocates or writes anything. So for any two lists the bulk append returns \<open>false\<close>
  and the whole state (both lists, every node, the allocator) is as it was.
\<close>

theorem list_add_all_always_fails:
  assumes "get_list s list1 = Some L1" and "get_list s list2 = Some L2"
  shows "list_add_all s list1 list2 = Some (False, s)
    \<and> (\<forall>index. size_l L1 \<le> index \<longrightarrow> list_add_all_at s list1 list2 index = Some (False, s))"
  using assms by (simp add: list_add_all_def list_add_all_at_def)

theorem list_add_all_always_fails_witness:
  "get_list ex_state 100 = Some \<lparr>size_l = 3, head = 11, tail = 13\<rparr>
   \<and> get_list ex_state 101 = Some \<lparr>size_l = 1, head = 14, tail = 14\<rparr>
   \<and> list_add_all ex_state 100 101 = Some (False, ex_state)
   \<and> list_add_all_at ex_state 100 101 3 = Some (False, ex_state)"
proof -
  have g: "get_list ex_state 100 = Some \<lparr>size_l = 3, head = 11, tail = 13\<rparr>"
    "get_list ex_state 101 = Some \<lparr>size_l = 1, head = 14, tail = 14\<rparr>"
    by (simp_all add: get_list_def ex_state_def)
  from list_add_all_always_fails[OF g] g show ?thesis by simp
qed

section \<open>Claims about splicing\<close>

text \<open>
  Claim C1. Every public list operation should preserve the doubly-linked invariant
  (for adjacent nodes \<open>A\<close>, \<open>B\<close>: \<open>A.next = B\<close> and \<open>B.prev = A\<close>). The code does not:
  \<open>splice_between\<close> writes \<open>left->next\<close> and \<open>right->prev\<close> but never the back link of the
  donor's head nor the forward link of the donor's tail. Appending list \<open>101\<close> (one node,
  \<open>14\<close>) to list \<open>100\<close> (nodes \<open>11, 12, 13\<close>) with \<open>list_splice\<close> succeeds and leaves
  \<open>13.next = 14\<close> while \<open>14.prev\<close> is still \<open>NULL\<close>; no chain of nodes is a well-formed
  list for \<open>100\<close> afterwards.
\<close>

theorem list_splice_breaks_back_link:
  "\<exists>s'. list_splice ex_state 100 101 = Some (True, s')
     \<and> get_list s' 100 = Some \<lparr>size_l = 4, head = 11, tail = 14\<rparr>
     \<and> get_next (nodes s') 13 = Some 14 \<and> get_prev (nodes s') 14 = Some NULL
     \<and> (\<forall>ns. \<not> is_list s' 100 ns)"
proof -
  obtain s' where run: "list_splice ex_state 100 101 = Some (True, s')"
    and g: "get_list s' 100 = Some \<lparr>size_l = 4, head = 11, tail = 14\<rparr>"
    and n: "nodes s' 13 = Some \<lparr>data = 30, next = 14, prev = 12\<rparr>"
      "nodes s' 14 = Some \<lparr>data = 40, next = NULL, prev = NULL\<rparr>"
    by (simp add: list_splice_def splice_between_def raw_simps ex_state_def cong: bind_weak_cong)
  have "\<not> is_list s' 100 ns" for ns
  proof
    assume il: "is_list s' 100 ns"
    then have "length ns = 4" and "last_or ns NULL = 14" using g by (simp_all add: is_list_def)
    then obtain a b c where ns: "ns = [a, b, c, 14]"
      by (auto simp: length_Suc_conv four_eq)
    with il n show False
      by (auto simp: is_list_def dll_def nxt_def prv_def)
  qed
  with run n g show ?thesis by (auto simp: get_next_def get_prev_def deref_def)
qed


text \<open>
  Claim C2. After a splice, list1 should hold its own elements and those of list2, in
  order, and count them. The code faults on an empty list1 (\<open>list_splice\<close> reads
  \<open>list1->tail->next\<close> with \<open>tail = NULL\<close>), and \<open>list_splice_before\<close> at the valid index
  \<open>1\<close> of list \<open>100\<close> leaves a list whose size field is \<open>4\<close> but whose walk from the head
  meets only \<open>10, 40\<close>: the donor's tail keeps \<open>next = NULL\<close>, so the elements \<open>20, 30\<close>
  are no longer reachable.
\<close>

theorem list_splice_before_loses_nodes:
  "list_splice ex_state 102 101 = None
   \<and> (\<exists>s'. list_splice_before ex_state 100 101 1 = Some (True, s')
        \<and> get_list s' 100 = Some \<lparr>size_l = 4, head = 11, tail = 13\<rparr>
        \<and> walk_elems 4 (nodes s') 11 = [10, 40])"
proof -
  obtain s' where run: "list_splice_before ex_state 100 101 1 = Some (True, s')"
    and g: "get_list s' 100 = Some \<lparr>size_l = 4, head = 11, tail = 13\<rparr>"
    and n: "nodes s' 11 = Some \<lparr>data = 10, next = 14, prev = NULL\<rparr>"
      "nodes s' 14 = Some \<lparr>data = 40, next = NULL, prev = NULL\<rparr>"
    by (simp add: list_splice_before_def splice_between_def get_node_at_def raw_simps
      ex_state_def cong: bind_weak_cong)
  have w: "walk_elems 4 (nodes s') 11 = [10, 40]"
    using n by (simp add: four_eq)
  have f: "list_splice ex_state 102 101 = None"
    by (simp add: list_splice_def raw_simps ex_state_def)
  from run g w f show ?thesis by blast
qed


text \<open>
  Claim C6. Splicing an empty list2 should be a successful no-op for every list1, the
  empty one included. With list1 empty, \<open>list_splice\<close> evaluates \<open>list1->tail->next\<close>
  before \<open>splice_between\<close> can test the size of list2, and \<open>tail\<close> is \<open>NULL\<close>: the call
  faults.
\<close>

theorem list_splice_empty_faults:
  "list_splice ex_state 102 103 = None"
  by (simp add: list_splice_def raw_simps ex_state_def)


section \<open>Claims about indexed insertion\<close>

text \<open>
  Claim C7. For a well-formed non-empty list with nodes \<open>ns\<close> and a valid index
  \<open>index < length ns\<close>, when the allocator hands out a fresh block \<open>p\<close>, \<open>list_add_at\<close>
  succeeds; the new node stands before the previous occupant of \<open>index\<close> (the list is
  again well formed, with the head on the new node when \<open>index = 0\<close>), \<open>list_get\<close> at
  \<open>index\<close> returns the inserted element, and the count has grown by exactly one.
\<close>

theorem list_add_at_get:
  assumes "is_list s list ns" and "index < length ns" and "length ns < SIZE_MAX"
    and "pool s = p # ps" and "p \<noteq> NULL" and "nodes s p = None"
  shows "\<exists>s'. list_add_at s list element index = Some (True, s')
    \<and> is_list s' list (take index ns @ p # drop index ns)
    \<and> list_get s' list index = Some element
    \<and> map_option size_l (get_list s' list) = Some (length ns + 1)
    \<and> elems (nodes s') (take index ns @ p # drop index ns)
        = take index (elems (nodes s) ns) @ element # drop index (elems (nodes s) ns)"
proof -
  let ?A = "take index ns" and ?b = "ns ! index" and ?C = "drop (Suc index) ns"
  let ?z = "\<lparr>data = NULL, next = NULL, prev = NULL\<rparr>"
  define h1 where "h1 = upd_data ((nodes s)(p \<mapsto> ?z)) p element"
  have ns: "ns = ?A @ ?b # ?C"
    using assms(2) by (simp add: id_take_nth_drop)
  have dl: "dll (nodes s) ns" and gl: "get_list s list = Some \<lparr>size_l = length ns, head = first_or ns NULL, tail = last_or ns NULL\<rparr>"
    using assms(1) by (auto simp: is_list_def)
  have pns: "p \<notin> set ns"
    using dll_live[OF dl, of p] assms(6) by auto
  have bnz: "?b \<noteq> NULL"
    using dll_live[OF dl, of ?b] assms(2) by auto
  have "dll h1 ns"
    using dll_alloc[OF dl assms(6), of ?z] by (simp add: h1_def dll_def)
  then have d1: "dll h1 (?A @ ?b # ?C)"
    using ns by simp
  have fresh: "nxt h1 p = Some NULL" "prv h1 p = Some NULL"
    by (simp_all add: h1_def)
  have pn: "p \<notin> set (?A @ ?b # ?C)"
    using pns ns by simp
  from link_behind_fresh[OF d1 assms(5) pn fresh]
  obtain h2 where h2: "link_behind h1 ?b p = Some h2" "dll h2 (?A @ p # ?b # ?C)" "dat h2 = dat h1"
    by blast
  let ?ns' = "take index ns @ p # drop index ns"
  have ns': "?ns' = ?A @ p # ?b # ?C"
    using assms(2) by (simp add: Cons_nth_drop_Suc)
  define s' where "s' = s\<lparr>nodes := h2, pool := ps,
     lists := (lists s)(list \<mapsto> \<lparr>size_l = length ns + 1, head = first_or ?ns' NULL, tail = last_or ?ns' NULL\<rparr>)\<rparr>"
  have lnz: "list \<noteq> NULL"
    using gl by (auto simp: get_list_def split: if_splits)
  have hd: "index \<noteq> 0 \<Longrightarrow> first_or ?ns' NULL = first_or ns NULL"
    using assms(2) by (cases ns; cases index) auto
  have tl: "last_or ?ns' NULL = last_or ns NULL"
    using assms(2) by (subst (3) ns) (simp add: ns' del: id_take_nth_drop)
  have run: "list_add_at s list element index = Some (True, s')"
    using get_node_at_nth[OF assms(1,2)] assms(3,4,5) bnz h2(1) gl lnz hd tl
    by (auto simp: list_add_at_def calloc_node_def on_nodes_def access_eq h1_def s'_def
        set_head_def set_size_def get_list_def put_list_def size_inc_def fun_upd_twist)
  have il: "is_list s' list ?ns'"
  proof -
    have "length ?ns' = length ns + 1" by simp
    moreover have "dll h2 ?ns'" using h2(2) ns' by simp
    ultimately show ?thesis
      using assms(3) lnz by (simp add: is_list_def s'_def get_list_def del: length_append)
  qed
  have dp: "dat h2 p = Some element"
    by (simp add: h2(3) h1_def)
  have "?ns' ! index = p"
    using assms(2) by (simp add: nth_append)
  then have get: "list_get s' list index = Some element"
    using get_node_at_nth[OF il, of index] assms(2,5) dp
    by (simp add: list_get_def access_eq s'_def)
  have e: "elems h2 ns = elems (nodes s) ns"
    using pns by (simp add: elems_def h2(3) h1_def)
  have "elems h2 ?ns' = take index (elems h2 ns) @ element # drop index (elems h2 ns)"
    using dp by (simp add: elems_def take_map drop_map)
  then have el: "elems (nodes s') ?ns' = take index (elems (nodes s) ns) @ element # drop index (elems (nodes s) ns)"
    using e by (simp add: s'_def)
  have sz: "map_option size_l (get_list s' list) = Some (length ns + 1)"
    using lnz by (simp add: s'_def get_list_def)
  from run il get sz el show ?thesis by blast
qed

theorem list_add_at_get_witness:
  "is_list ex_state 100 [11, 12, 13] \<and>
   (\<exists>s'. list_add_at ex_state 100 9 1 = Some (True, s')
      \<and> is_list s' 100 [11, 50, 12, 13] \<and> list_get s' 100 1 = Some 9
      \<and> map_option size_l (get_list s' 100) = Some 4
      \<and> elems (nodes s') [11, 50, 12, 13] = [10, 9, 20, 30])"
proof -
  have il: "is_list ex_state 100 [11, 12, 13]" by (rule ex_lists)
  have "pool ex_state = 50 # [51]" "nodes ex_state 50 = None" "length [11::nat, 12, 13] < SIZE_MAX"
    by (simp_all add: ex_state_def SIZE_MAX_def)
  from list_add_at_get[OF il _ this(3) this(1) _ this(2), of 1 9] il show ?thesis
    by (simp add: ex_elems four_eq)
qed


text \<open>
  Claim C8. For a list of size \<open>n\<close>, \<open>list_add_at\<close> with an index that is not below \<open>n\<close>
  (in particular \<open>index = n\<close>) returns \<open>false\<close>; the list structure, its chain of nodes
  and its elements are unchanged (the node block the call had allocated is all that the
  call leaves behind).
\<close>

theorem list_add_at_end_rejected:
  assumes "is_list s list ns" and "length ns \<le> index" and "set (pool s) \<inter> set ns = {}"
  shows "\<exists>s'. list_add_at s list element index = Some (False, s')
    \<and> is_list s' list ns \<and> elems (nodes s') ns = elems (nodes s) ns \<and> lists s' = lists s"
proof -
  obtain ins s' where c: "calloc_node s = (ins, s')" by (cases "calloc_node s")
  have run: "list_add_at s list element index = Some (False, s')"
    using get_node_at_out[OF assms(1,2)] c by (simp add: list_add_at_def)
  have l: "lists s' = lists s"
    using c by (auto simp: calloc_node_def split: list.splits if_splits)
  have "dll (nodes s') ns \<and> elems (nodes s') ns = elems (nodes s) ns"
    using c assms(1,3) by (auto simp: calloc_node_def is_list_def dll_def elems_def split: list.splits if_splits)
  then have "is_list s' list ns \<and> elems (nodes s') ns = elems (nodes s) ns"
    using assms(1) l by (simp add: is_list_def get_list_def split: if_splits)
  with run l show ?thesis by blast
qed

theorem list_add_at_end_rejected_witness:
  "is_list ex_state 100 [11, 12, 13] \<and>
   (\<exists>s'. list_add_at ex_state 100 9 3 = Some (False, s') \<and> is_list s' 100 [11, 12, 13]
      \<and> elems (nodes s') [11, 12, 13] = [10, 20, 30] \<and> lists s' = lists ex_state)"
proof -
  have il: "is_list ex_state 100 [11, 12, 13]" by (rule ex_lists)
  have "set (pool ex_state) \<inter> set [11, 12, 13] = {}" by (simp add: ex_state_def)
  from list_add_at_end_rejected[OF il _ this, of 3 9] il show ?thesis
    by (simp add: ex_elems)
qed


section \<open>Claims about reversal\<close>

text \<open>
  Claim C9. For every well-formed list, \<open>list_reverse\<close> returns and leaves the list
  well formed over the reversed chain of the same nodes; applying it twice gives back the
  original chain, hence the original element order and the original count.
\<close>

theorem list_reverse_twice:
  assumes "is_list s l ns"
  shows "\<exists>s' s''. list_reverse s l = Some s' \<and> list_reverse s' l = Some s''
     \<and> is_list s' l (rev ns) \<and> elems (nodes s') (rev ns) = rev (elems (nodes s) ns)
     \<and> is_list s'' l ns \<and> elems (nodes s'') ns = elems (nodes s) ns
     \<and> map_option size_l (get_list s'' l) = map_option size_l (get_list s l)"
proof -
  from list_reverse_chain[OF assms] obtain s' where
    s': "list_reverse s l = Some s'" "is_list s' l (rev ns)" "dat (nodes s') = dat (nodes s)"
    by blast
  from list_reverse_chain[OF s'(2)] obtain s'' where
    s'': "list_reverse s' l = Some s''" "is_list s'' l ns" "dat (nodes s'') = dat (nodes s')"
    by auto
  have "elems (nodes s') (rev ns) = rev (elems (nodes s) ns)"
    using s'(3) by (simp add: elems_def rev_map)
  moreover have "elems (nodes s'') ns = elems (nodes s) ns"
    using s'(3) s''(3) by (simp add: elems_def)
  moreover have "map_option size_l (get_list s'' l) = map_option size_l (get_list s l)"
    using assms s''(2) by (simp add: is_list_def)
  ultimately show ?thesis using s'(1,2) s''(1,2) by blast
qed

theorem list_reverse_twice_witness:
  "is_list ex_state 100 [11, 12, 13] \<and>
   (\<exists>s' s''. list_reverse ex_state 100 = Some s' \<and> list_reverse s' 100 = Some s''
     \<and> is_list s' 100 [13, 12, 11] \<and> elems (nodes s') [13, 12, 11] = [30, 20, 10]
     \<and> is_list s'' 100 [11, 12, 13] \<and> elems (nodes s'') [11, 12, 13] = [10, 20, 30]
     \<and> map_option size_l (get_list s'' 100) = Some 3)"
proof -
  have "map_option size_l (get_list ex_state 100) = Some 3"
    by (simp add: get_list_def ex_state_def)
  with list_reverse_twice[OF ex_lists(1)] ex_lists(1) show ?thesis
    by (simp add: ex_elems)
qed

section \<open>Claims about cursors\<close>

text \<open>
  Claim C5, as the code has it. Take a cursor between two adjacent nodes \<open>a\<close> and \<open>b\<close> of a
  well-formed list: a forward cursor that has yielded \<open>a\<close> and will yield \<open>b\<close>, or a
  backward cursor that has yielded \<open>b\<close> and will yield \<open>a\<close>. Cursor insert links a new
  node \<open>p\<close> between the two and increments the list size; the forward cursor increments
  its index, the backward cursor leaves it alone; and both set \<open>last\<close> to the new node, so
  that the following cursor remove returns the inserted element and restores the list as
  it was.
\<close>

theorem cursor_add_sets_last:
  assumes "is_list s l (A @ a # b # C)" and "length (A @ a # b # C) < SIZE_MAX"
    and "pool s = p # ps" and "p \<noteq> NULL" and "nodes s p = None"
  shows "(\<exists>s' s''.
       list_iter_add s \<lparr>it_index = i, it_list = l, it_last = a, it_next = b\<rparr> e
         = Some (True, \<lparr>it_index = size_inc i, it_list = l, it_last = p, it_next = b\<rparr>, s')
     \<and> is_list s' l (A @ a # p # b # C)
     \<and> elems (nodes s') (A @ a # p # b # C) = elems (nodes s) (A @ [a]) @ e # elems (nodes s) (b # C)
     \<and> list_iter_remove s' \<lparr>it_index = size_inc i, it_list = l, it_last = p, it_next = b\<rparr>
         = Some (e, \<lparr>it_index = size_inc i, it_list = l, it_last = NULL, it_next = b\<rparr>, s'')
     \<and> is_list s'' l (A @ a # b # C)
     \<and> elems (nodes s'') (A @ a # b # C) = elems (nodes s) (A @ a # b # C))
   \<and> (\<exists>s' s''.
       list_diter_add s \<lparr>it_index = i, it_list = l, it_last = b, it_next = a\<rparr> e
         = Some (True, \<lparr>it_index = i, it_list = l, it_last = p, it_next = a\<rparr>, s')
     \<and> is_list s' l (A @ a # p # b # C)
     \<and> elems (nodes s') (A @ a # p # b # C) = elems (nodes s) (A @ [a]) @ e # elems (nodes s) (b # C)
     \<and> list_diter_remove s' \<lparr>it_index = i, it_list = l, it_last = p, it_next = a\<rparr>
         = Some (e, \<lparr>it_index = i, it_list = l, it_last = NULL, it_next = a\<rparr>, s'')
     \<and> is_list s'' l (A @ a # b # C)
     \<and> elems (nodes s'') (A @ a # b # C) = elems (nodes s) (A @ a # b # C))"
proof -
  have pn: "p \<notin> set (A @ a # b # C)"
    using dll_live[of "nodes s" "A @ a # b # C" p] assms(1,5) by (auto simp: is_list_def)
  have rest: "\<exists>s''. unlink s' l p = Some (e, s'') \<and> is_list s'' l (A @ a # b # C)
      \<and> elems (nodes s'') (A @ a # b # C) = elems (nodes s) (A @ a # b # C)
      \<and> elems (nodes s') (A @ a # p # b # C) = elems (nodes s) (A @ [a]) @ e # elems (nodes s) (b # C)"
    if il: "is_list s' l (A @ a # p # b # C)" and dt: "dat (nodes s') = (dat (nodes s))(p \<mapsto> e)" for s'
  proof -
    from il have "is_list s' l ((A @ [a]) @ p # b # C)" by simp
    from unlink_chain[OF this] obtain s'' where
      "unlink s' l p = Some (the (dat (nodes s') p), s'')" "is_list s'' l ((A @ [a]) @ b # C)"
      "dat (nodes s'') = (dat (nodes s'))(p := None)"
      by blast
    then show ?thesis using dt pn by (auto simp: elems_def)
  qed
  from list_iter_add_chain[OF assms, of i a e] obtain s1 where s1:
    "list_iter_add s \<lparr>it_index = i, it_list = l, it_last = a, it_next = b\<rparr> e
        = Some (True, \<lparr>it_index = size_inc i, it_list = l, it_last = p, it_next = b\<rparr>, s1)"
    "is_list s1 l (A @ a # p # b # C)" "dat (nodes s1) = (dat (nodes s))(p \<mapsto> e)"
    by blast
  from list_diter_add_chain[OF assms, of i b e] obtain s2 where s2:
    "list_diter_add s \<lparr>it_index = i, it_list = l, it_last = b, it_next = a\<rparr> e
        = Some (True, \<lparr>it_index = i, it_list = l, it_last = p, it_next = a\<rparr>, s2)"
    "is_list s2 l (A @ a # p # b # C)" "dat (nodes s2) = (dat (nodes s))(p \<mapsto> e)"
    by blast
  from rest[OF s1(2,3)] s1(1,2) assms(4) have fwd: "\<exists>s' s''.
       list_iter_add s \<lparr>it_index = i, it_list = l, it_last = a, it_next = b\<rparr> e
         = Some (True, \<lparr>it_index = size_inc i, it_list = l, it_last = p, it_next = b\<rparr>, s')
     \<and> is_list s' l (A @ a # p # b # C)
     \<and> elems (nodes s') (A @ a # p # b # C) = elems (nodes s) (A @ [a]) @ e # elems (nodes s) (b # C)
     \<and> list_iter_remove s' \<lparr>it_index = size_inc i, it_list = l, it_last = p, it_next = b\<rparr>
         = Some (e, \<lparr>it_index = size_inc i, it_list = l, it_last = NULL, it_next = b\<rparr>, s'')
     \<and> is_list s'' l (A @ a # b # C)
     \<and> elems (nodes s'') (A @ a # b # C) = elems (nodes s) (A @ a # b # C)"
    by (auto simp: list_iter_remove_def)
  from rest[OF s2(2,3)] s2(1,2) assms(4) have bwd: "\<exists>s' s''.
       list_diter_add s \<lparr>it_index = i, it_list = l, it_last = b, it_next = a\<rparr> e
         = Some (True, \<lparr>it_index = i, it_list = l, it_last = p, it_next = a\<rparr>, s')
     \<and> is_list s' l (A @ a # p # b # C)
     \<and> elems (nodes s') (A @ a # p # b # C) = elems (nodes s) (A @ [a]) @ e # elems (nodes s) (b # C)
     \<and> list_diter_remove s' \<lparr>it_index = i, it_list = l, it_last = p, it_next = a\<rparr>
         = Some (e, \<lparr>it_index = i, it_list = l, it_last = NULL, it_next = a\<rparr>, s'')
     \<and> is_list s'' l (A @ a # b # C)
     \<and> elems (nodes s'') (A @ a # b # C) = elems (nodes s) (A @ a # b # C)"
    by (auto simp: list_diter_remove_def)
  from fwd bwd show ?thesis by blast
qed

theorem cursor_add_sets_last_witness:
  "is_list ex_state 100 [11, 12, 13] \<and>
   (\<exists>s' s''. list_iter_add ex_state \<lparr>it_index = 2, it_list = 100, it_last = 11, it_next = 12\<rparr> 9
         = Some (True, \<lparr>it_index = 3, it_list = 100, it_last = 50, it_next = 12\<rparr>, s')
      \<and> is_list s' 100 [11, 50, 12, 13] \<and> elems (nodes s') [11, 50, 12, 13] = [10, 9, 20, 30]
      \<and> list_iter_remove s' \<lparr>it_index = 3, it_list = 100, it_last = 50, it_next = 12\<rparr>
         = Some (9, \<lparr>it_index = 3, it_list = 100, it_last = NULL, it_next = 12\<rparr>, s'')
      \<and> is_list s'' 100 [11, 12, 13] \<and> elems (nodes s'') [11, 12, 13] = [10, 20, 30])
   \<and> (\<exists>s' s''. list_diter_add ex_state \<lparr>it_index = 2, it_list = 100, it_last = 12, it_next = 11\<rparr> 9
         = Some (True, \<lparr>it_index = 2, it_list = 100, it_last = 50, it_next = 11\<rparr>, s')
      \<and> is_list s' 100 [11, 50, 12, 13] \<and> elems (nodes s') [11, 50, 12, 13] = [10, 9, 20, 30]
      \<and> list_diter_remove s' \<lparr>it_index = 2, it_list = 100, it_last = 50, it_next = 11\<rparr>
         = Some (9, \<lparr>it_index = 2, it_list = 100, it_last = NULL, it_next = 11\<rparr>, s'')
      \<and> is_list s'' 100 [11, 12, 13] \<and> elems (nodes s'') [11, 12, 13] = [10, 20, 30])"
proof -
  have il: "is_list ex_state 100 ([] @ 11 # 12 # [13])" using ex_lists(1) by simp
  have "pool ex_state = 50 # [51]" "nodes ex_state 50 = None" "length ([] @ 11 # 12 # [13::nat]) < SIZE_MAX"
    by (simp_all add: ex_state_def SIZE_MAX_def)
  from cursor_add_sets_last[OF il this(3) this(1) _ this(2), of 2 9] ex_lists(1) show ?thesis
    by (simp add: ex_elems ex_elems2 size_inc_def SIZE_MAX_def)
qed

text \<open>
  The claim as stated fails: after the forward cursor has yielded node \<open>11\<close>, inserting
  does not leave \<open>last\<close> on node \<open>11\<close>.
\<close>

theorem cursor_add_keeps_last_counterexample:
  "\<not> (\<exists>iter' s'. list_iter_add ex_state \<lparr>it_index = 1, it_list = 100, it_last = 11, it_next = 12\<rparr> 9
         = Some (True, iter', s') \<and> it_last iter' = 11)"
  by (simp add: list_iter_add_def calloc_node_def ex_state_def on_nodes_def access_eq
      link_behind_def set_size_def get_list_def put_list_def Let_def)


section \<open>Claims about sorting\<close>

text \<open>
  Claim C3. For every well-formed list and every three-way comparator, \<open>list_sort\<close>
  returns, and the list is then well formed over a chain \<open>ns'\<close> that is a permutation of
  the original nodes with their payloads untouched; the elements are a permutation of the
  original ones, in ascending order by the comparator; for every payload \<open>k\<close> the nodes
  whose payload compares equal to \<open>k\<close> stand in their original relative order (stability);
  and the head of the list is the first node of the sorted chain, its tail the last.
\<close>

theorem list_sort_sorts:
  assumes "is_list s l ns" and "three_way cmp"
  shows "\<exists>s' ns'. list_sort s l cmp = Some s' \<and> is_list s' l ns'
     \<and> get_list s' l = Some \<lparr>size_l = length ns, head = first_or ns' NULL, tail = last_or ns' NULL\<rparr>
     \<and> mset ns' = mset ns \<and> dat (nodes s') = dat (nodes s)
     \<and> mset (elems (nodes s') ns') = mset (elems (nodes s) ns)
     \<and> sorted_wrt (\<lambda>x y. cmp x y \<le> 0) (elems (nodes s') ns')
     \<and> (\<forall>k. filter (\<lambda>a. cmp k (the (dat (nodes s) a)) = 0) ns'
            = filter (\<lambda>a. cmp k (the (dat (nodes s) a)) = 0) ns)"
proof -
  let ?D = "dat (nodes s)"
  let ?le = "node_le cmp ?D"
  let ?S = "spec_sort ?le ns"
  have tw: "\<And>x. cmp x x = 0" "\<And>x y. cmp y x = - cmp x y"
    "\<And>x y z. cmp x y \<le> 0 \<Longrightarrow> cmp y z \<le> 0 \<Longrightarrow> cmp x z \<le> 0"
    using assms(2) unfolding three_way_def by blast+
  have rf: "\<forall>a \<in> set ns. ?le a a" by (simp add: node_le_def tw(1))
  from list_sort_chain[OF assms(1) rf] obtain s' where
    s': "list_sort s l cmp = Some s'" "is_list s' l ?S" "dat (nodes s') = ?D"
    by blast
  have po: "total_preorder ?le" by (rule node_le_preorder[OF assms(2)])
  have ms: "mset ?S = mset ns" by (rule mset_spec_sort)
  have el: "elems (nodes s') ?S = map (\<lambda>a. the (?D a)) ?S" "elems (nodes s) ns = map (\<lambda>a. the (?D a)) ns"
    using s'(3) by (simp_all add: elems_def)
  have me: "mset (elems (nodes s') ?S) = mset (elems (nodes s) ns)"
    unfolding el using ms by (metis mset_map)
  have "sorted_wrt ?le ?S" by (rule sorted_spec_sort[OF po])
  then have "sorted_wrt (\<lambda>a b. cmp (the (?D a)) (the (?D b)) \<le> 0) ?S"
    by (rule sorted_wrt_mono_rel[rotated]) (simp add: node_le_iff[OF assms(2)])
  then have so: "sorted_wrt (\<lambda>x y. cmp x y \<le> 0) (elems (nodes s') ?S)"
    unfolding el by (simp add: sorted_wrt_map)
  have st: "filter (\<lambda>a. cmp k (the (?D a)) = 0) ?S = filter (\<lambda>a. cmp k (the (?D a)) = 0) ns" for k
  proof (rule stable_spec_sort[OF po])
    show "\<forall>a b. cmp k (the (?D a)) = 0 \<and> cmp k (the (?D b)) = 0 \<longrightarrow> ?le a b"
    proof (intro allI impI)
      fix a b
      assume e: "cmp k (the (?D a)) = 0 \<and> cmp k (the (?D b)) = 0"
      then have "cmp (the (?D a)) k \<le> 0" using tw(2)[of k "the (?D a)"] by simp
      moreover have "cmp k (the (?D b)) \<le> 0" using e by simp
      ultimately have "cmp (the (?D a)) (the (?D b)) \<le> 0" by (rule tw(3))
      then show "?le a b" by (simp add: node_le_iff[OF assms(2)])
    qed
  qed
  have gl: "get_list s' l = Some \<lparr>size_l = length ns, head = first_or ?S NULL, tail = last_or ?S NULL\<rparr>"
    using s'(2) by (simp add: is_list_def length_spec_sort)
  from s'(1,2,3) gl ms me so st show ?thesis by blast
qed


theorem list_sort_sorts_witness:
  "three_way num_cmp \<and> is_list ex_state 105 [31, 32, 33]
   \<and> elems (nodes ex_state) [31, 32, 33] = [3, 1, 2]
   \<and> (\<exists>s'. list_sort ex_state 105 num_cmp = Some s' \<and> is_list s' 105 [32, 33, 31]
        \<and> get_list s' 105 = Some \<lparr>size_l = 3, head = 32, tail = 31\<rparr>
        \<and> elems (nodes s') [32, 33, 31] = [1, 2, 3]
        \<and> sorted_wrt (\<lambda>x y. num_cmp x y \<le> 0) (elems (nodes s') [32, 33, 31]))"
proof -
  have tw: "three_way num_cmp"
    by (auto simp: three_way_def num_cmp_def)
  have e: "elems (nodes ex_state) [31, 32, 33] = [3, 1, 2]"
    by (simp add: ex_simps)
  have d: "the (dat (nodes ex_state) 31) = 3" "the (dat (nodes ex_state) 32) = 1"
    "the (dat (nodes ex_state) 33) = 2"
    by (simp_all add: ex_state_def dat_def)
  from list_sort_sorts[OF ex_lists(6) tw] obtain s' ns' where
    s': "list_sort ex_state 105 num_cmp = Some s'" "is_list s' 105 ns'"
      "dat (nodes s') = dat (nodes ex_state)"
      "sorted_wrt (\<lambda>x y. num_cmp x y \<le> 0) (elems (nodes s') ns')"
    by blast
  have rf: "\<forall>a \<in> set [31, 32, 33]. node_le num_cmp (dat (nodes ex_state)) a a"
    by (simp add: node_le_def num_cmp_def)
  have sp: "spec_sort (node_le num_cmp (dat (nodes ex_state))) [31, 32, 33] = [32, 33, 31]"
    by (simp add: spec_sort.simps node_le_def num_cmp_def d)
  from list_sort_chain[OF ex_lists(6) rf] s'(1) sp
  have il: "is_list s' 105 [32, 33, 31]" by simp
  then have gl: "get_list s' 105 = Some \<lparr>size_l = 3, head = 32, tail = 31\<rparr>"
    by (simp add: is_list_def)
  have el: "elems (nodes s') [32, 33, 31] = [1, 2, 3]"
    using s'(3) d by (simp add: elems_def)
  have "sorted_wrt (\<lambda>x y. num_cmp x y \<le> 0) (elems (nodes s') [32, 33, 31])"
    unfolding el by (simp add: num_cmp_def)
  with tw ex_lists(6) e s'(1) il gl el show ?thesis by blast
qed

text \<open>
  Claim C10, as the code has it. The merge step classifies a pair as "left precedes or
  equals right" only when the comparator returns exactly \<open>-1\<close> or exactly \<open>0\<close>; any other
  return value, another negative value such as \<open>-2\<close> included, is treated as "right
  precedes left": for every comparator, \<open>list_sort\<close> on a well-formed list of two nodes
  returns, and it keeps the two nodes in their order exactly when the comparator answers
  \<open>-1\<close> or \<open>0\<close> on their payloads, and swaps them on every other answer. So the sortedness
  and stability guarantees of \<open>list_sort\<close> hold under the precondition that the comparator
  answers exactly \<open>-1\<close> for "less" and exactly \<open>0\<close> for "equal" (\<open>exact_less_equal\<close>),
  whatever value it answers for "greater": \<open>list_sort\<close> then returns, the list is well
  formed over the chain that the stable merge sort for the relation "the comparator
  answers \<open>-1\<close> or \<open>0\<close>" computes, a permutation of the original nodes with their payloads
  untouched, the elements are in ascending order by that relation, and for every payload
  \<open>k\<close> the nodes whose payload compares equal to \<open>k\<close> stand in their original relative
  order.
\<close>

theorem merge_orders_by_minus_one_or_zero:
  assumes "is_list s l ns"
  shows "(\<forall>a b. ns = [a, b] \<longrightarrow>
           (\<exists>s'. list_sort s l cmp = Some s'
              \<and> is_list s' l (if cmp (the (dat (nodes s) a)) (the (dat (nodes s) b)) = - 1
                                 \<or> cmp (the (dat (nodes s) a)) (the (dat (nodes s) b)) = 0
                              then [a, b] else [b, a])
              \<and> dat (nodes s') = dat (nodes s)))
     \<and> (exact_less_equal cmp \<longrightarrow>
           (\<exists>s' ns'. list_sort s l cmp = Some s' \<and> is_list s' l ns'
              \<and> ns' = spec_sort (node_le cmp (dat (nodes s))) ns
              \<and> mset ns' = mset ns \<and> dat (nodes s') = dat (nodes s)
              \<and> mset (elems (nodes s') ns') = mset (elems (nodes s) ns)
              \<and> sorted_wrt (\<lambda>x y. cmp x y = - 1 \<or> cmp x y = 0) (elems (nodes s') ns')
              \<and> (\<forall>k. filter (\<lambda>a. cmp k (the (dat (nodes s) a)) = 0) ns'
                     = filter (\<lambda>a. cmp k (the (dat (nodes s) a)) = 0) ns)))"
proof (intro conjI allI impI)
  fix a b
  assume "ns = [a, b]"
  with assms have "is_list s l [a, b]" by simp
  then show "\<exists>s'. list_sort s l cmp = Some s'
      \<and> is_list s' l (if cmp (the (dat (nodes s) a)) (the (dat (nodes s) b)) = - 1
                         \<or> cmp (the (dat (nodes s) a)) (the (dat (nodes s) b)) = 0
                      then [a, b] else [b, a])
      \<and> dat (nodes s') = dat (nodes s)"
    by (rule list_sort_pair)
next
  assume "exact_less_equal cmp"
  with assms show "\<exists>s' ns'. list_sort s l cmp = Some s' \<and> is_list s' l ns'
      \<and> ns' = spec_sort (node_le cmp (dat (nodes s))) ns
      \<and> mset ns' = mset ns \<and> dat (nodes s') = dat (nodes s)
      \<and> mset (elems (nodes s') ns') = mset (elems (nodes s) ns)
      \<and> sorted_wrt (\<lambda>x y. cmp x y = - 1 \<or> cmp x y = 0) (elems (nodes s') ns')
      \<and> (\<forall>k. filter (\<lambda>a. cmp k (the (dat (nodes s) a)) = 0) ns'
             = filter (\<lambda>a. cmp k (the (dat (nodes s) a)) = 0) ns)"
    by (rule list_sort_exact)
qed

theorem merge_orders_by_minus_one_or_zero_witness:
  "is_list ex_state 104 [21, 22] \<and> elems (nodes ex_state) [21, 22] = [70, 80]
   \<and> (\<exists>s'. list_sort ex_state 104 (\<lambda>a b. if a < b then - 2 else if a = b then 0 else 2) = Some s'
        \<and> is_list s' 104 [22, 21] \<and> elems (nodes s') [22, 21] = [80, 70])
   \<and> exact_less_equal (\<lambda>a b. if b < a then - 1 else if a = b then 0 else 5)
   \<and> is_list ex_state 100 [11, 12, 13] \<and> elems (nodes ex_state) [11, 12, 13] = [10, 20, 30]
   \<and> (\<exists>s'. list_sort ex_state 100 (\<lambda>a b. if b < a then - 1 else if a = b then 0 else 5) = Some s'
        \<and> is_list s' 100 [13, 12, 11] \<and> elems (nodes s') [13, 12, 11] = [30, 20, 10])"
proof -
  let ?neg = "\<lambda>a b :: ptr. if a < b then - 2 else if a = b then 0 else 2 :: int"
  let ?dsc = "\<lambda>a b :: ptr. if b < a then - 1 else if a = b then 0 else 5 :: int"
  have d: "the (dat (nodes ex_state) 21) = 70" "the (dat (nodes ex_state) 22) = 80"
    "the (dat (nodes ex_state) 11) = 10" "the (dat (nodes ex_state) 12) = 20"
    "the (dat (nodes ex_state) 13) = 30"
    by (simp_all add: ex_state_def dat_def)
  have e: "elems (nodes ex_state) [21, 22] = [70, 80]"
    by (simp add: elems_def d)
  from merge_orders_by_minus_one_or_zero[OF ex_lists(5), of ?neg] obtain s1 where
    s1: "list_sort ex_state 104 ?neg = Some s1"
      "is_list s1 104 (if ?neg (the (dat (nodes ex_state) 21)) (the (dat (nodes ex_state) 22)) = - 1
              \<or> ?neg (the (dat (nodes ex_state) 21)) (the (dat (nodes ex_state) 22)) = 0
           then [21, 22] else [22, 21])"
      "dat (nodes s1) = dat (nodes ex_state)"
    by blast
  have i1: "is_list s1 104 [22, 21]"
    using s1(2) by (simp add: d)
  have e1: "elems (nodes s1) [22, 21] = [80, 70]"
    using s1(3) d by (simp add: elems_def)
  have ex: "exact_less_equal ?dsc"
    by (auto simp: exact_less_equal_def)
  from merge_orders_by_minus_one_or_zero[OF ex_lists(1), of ?dsc] ex obtain s2 where
    s2: "list_sort ex_state 100 ?dsc = Some s2"
      "is_list s2 100 (spec_sort (node_le ?dsc (dat (nodes ex_state))) [11, 12, 13])"
      "dat (nodes s2) = dat (nodes ex_state)"
    by blast
  have sp: "spec_sort (node_le ?dsc (dat (nodes ex_state))) [11, 12, 13] = [13, 12, 11]"
    by (simp add: spec_sort.simps node_le_def d)
  have i2: "is_list s2 100 [13, 12, 11]"
    using s2(2) sp by simp
  have e2: "elems (nodes s2) [13, 12, 11] = [30, 20, 10]"
    using s2(3) d by (simp add: elems_def)
  from ex_lists(5) e s1(1) i1 e1 ex ex_lists(1) ex_elems s2(1) i2 e2 show ?thesis by blast
qed

text \<open>
  The last clause of the claim as stated fails: it reads that the sortedness and stability
  guarantees of \<open>list_sort\<close> hold only when the comparator's range is exactly
  \<open>{-1, 0, 1}\<close>. The comparator \<open>wide_cmp\<close> answers \<open>7\<close> for "greater" (\<open>wide_cmp 3 1 = 7\<close>),
  so its range is not within \<open>{-1, 0, 1}\<close>; yet \<open>list_sort\<close> sorts the list of the payloads
  \<open>3, 1, 2\<close> to \<open>1, 2, 3\<close> with it, and on every well-formed list it returns with the list
  well formed over a permutation of the original nodes, in ascending order and stable. So
  the guarantees do not imply that the comparator answers only \<open>-1\<close>, \<open>0\<close> or \<open>1\<close>.
\<close>

theorem list_sort_beyond_three_way_counterexample:
  "wide_cmp 3 1 = 7 \<and> elems (nodes ex_state) [31, 32, 33] = [3, 1, 2]
   \<and> (\<exists>s'. list_sort ex_state 105 wide_cmp = Some s' \<and> is_list s' 105 [32, 33, 31]
        \<and> elems (nodes s') [32, 33, 31] = [1, 2, 3])
   \<and> \<not> (\<forall>cmp. (\<forall>s l ns. is_list s l ns \<longrightarrow>
             (\<exists>s' ns'. list_sort s l cmp = Some s' \<and> is_list s' l ns'
                \<and> mset ns' = mset ns \<and> dat (nodes s') = dat (nodes s)
                \<and> sorted_wrt (\<lambda>x y. cmp x y \<le> 0) (elems (nodes s') ns')
                \<and> (\<forall>k. filter (\<lambda>a. cmp k (the (dat (nodes s) a)) = 0) ns'
                       = filter (\<lambda>a. cmp k (the (dat (nodes s) a)) = 0) ns)))
          \<longrightarrow> (\<forall>x y. cmp x y = - 1 \<or> cmp x y = 0 \<or> cmp x y = 1))"
proof -
  have w: "wide_cmp 3 1 = 7" by (simp add: wide_cmp_def)
  have ex: "exact_less_equal wide_cmp"
    by (auto simp: exact_less_equal_def wide_cmp_def)
  have le: "(wide_cmp x y = - 1 \<or> wide_cmp x y = 0) = (wide_cmp x y \<le> 0)" for x y
    by (simp add: wide_cmp_def)
  have e: "elems (nodes ex_state) [31, 32, 33] = [3, 1, 2]"
    by (simp add: ex_simps)
  have d: "the (dat (nodes ex_state) 31) = 3" "the (dat (nodes ex_state) 32) = 1"
    "the (dat (nodes ex_state) 33) = 2"
    by (simp_all add: ex_state_def dat_def)
  from list_sort_exact[OF ex_lists(6) ex] obtain s' where
    s': "list_sort ex_state 105 wide_cmp = Some s'"
      "is_list s' 105 (spec_sort (node_le wide_cmp (dat (nodes ex_state))) [31, 32, 33])"
      "dat (nodes s') = dat (nodes ex_state)"
    by blast
  have sp: "spec_sort (node_le wide_cmp (dat (nodes ex_state))) [31, 32, 33] = [32, 33, 31]"
    by (simp add: spec_sort.simps node_le_def wide_cmp_def d)
  have il: "is_list s' 105 [32, 33, 31]" using s'(2) sp by simp
  have el: "elems (nodes s') [32, 33, 31] = [1, 2, 3]"
    using s'(3) d by (simp add: elems_def)
  have run: "\<exists>s'. list_sort ex_state 105 wide_cmp = Some s' \<and> is_list s' 105 [32, 33, 31]
        \<and> elems (nodes s') [32, 33, 31] = [1, 2, 3]"
    using s'(1) il el by blast
  have g: "\<forall>s l ns. is_list s l ns \<longrightarrow>
      (\<exists>s' ns'. list_sort s l wide_cmp = Some s' \<and> is_list s' l ns'
         \<and> mset ns' = mset ns \<and> dat (nodes s') = dat (nodes s)
         \<and> sorted_wrt (\<lambda>x y. wide_cmp x y \<le> 0) (elems (nodes s') ns')
         \<and> (\<forall>k. filter (\<lambda>a. wide_cmp k (the (dat (nodes s) a)) = 0) ns'
                = filter (\<lambda>a. wide_cmp k (the (dat (nodes s) a)) = 0) ns))"
  proof (intro allI impI)
    fix s l ns
    assume "is_list s l ns"
    from list_sort_exact[OF this ex] show "\<exists>s' ns'. list_sort s l wide_cmp = Some s' \<and> is_list s' l ns'
         \<and> mset ns' = mset ns \<and> dat (nodes s') = dat (nodes s)
         \<and> sorted_wrt (\<lambda>x y. wide_cmp x y \<le> 0) (elems (nodes s') ns')
         \<and> (\<forall>k. filter (\<lambda>a. wide_cmp k (the (dat (nodes s) a)) = 0) ns'
                = filter (\<lambda>a. wide_cmp k (the (dat (nodes s) a)) = 0) ns)"
      unfolding le by blast
  qed
  have r: "\<not> (\<forall>x y. wide_cmp x y = - 1 \<or> wide_cmp x y = 0 \<or> wide_cmp x y = 1)"
  proof
    assume "\<forall>x y. wide_cmp x y = - 1 \<or> wide_cmp x y = 0 \<or> wide_cmp x y = 1"
    then have "wide_cmp 3 1 = - 1 \<or> wide_cmp 3 1 = 0 \<or> wide_cmp 3 1 = 1" by blast
    then show False unfolding w by simp
  qed
  have n: "\<not> (\<forall>cmp. (\<forall>s l ns. is_list s l ns \<longrightarrow>
             (\<exists>s' ns'. list_sort s l cmp = Some s' \<and> is_list s' l ns'
                \<and> mset ns' = mset ns \<and> dat (nodes s') = dat (nodes s)
                \<and> sorted_wrt (\<lambda>x y. cmp x y \<le> 0) (elems (nodes s') ns')
                \<and> (\<forall>k. filter (\<lambda>a. cmp k (the (dat (nodes s) a)) = 0) ns'
                       = filter (\<lambda>a. cmp k (the (dat (nodes s) a)) = 0) ns)))
          \<longrightarrow> (\<forall>x y. cmp x y = - 1 \<or> cmp x y = 0 \<or> cmp x y = 1))"
    using g r by blast
  from w e run n show ?thesis by blast
qed

end
